theory Spec2Isabelle
  imports Complex_Main "HOL-Library.AList" "HOL-Library.Multiset" "HOL-Library.Stream"
    "HOL-Library.Signed_Division"
begin

section \<open>The cat-sorting puzzle of \<open>CatSort.tsx\<close>\<close>

text \<open>
  The component keeps a board of stacks of boxes, each box showing a cat; index 0 of a
  stack is its top. The development embeds the engine part of the component: the group
  on top of a stack, the click handler that accepts or rejects a move, the timer
  callback that applies it, undo, the completion check, the search for a valid move, and
  the generator of the first board with its retry.
\<close>

subsection \<open>Data model\<close>

record Cat =
  cat_id :: string
  cat_name :: string
  cat_image :: string
  primaryColor :: string
  secondaryColor :: "string option"

text \<open>
  A box carries its own id and its cat. The optional fields \<open>isMoving\<close> and
  \<open>targetStack\<close> of the source type are never written by the component and are
  left out.
\<close>

record CatBox =
  box_id :: string
  cat :: Cat

type_synonym Stack = "CatBox list"

definition MAX_STACK_SIZE :: nat where
  "MAX_STACK_SIZE = 4"

text \<open>The comparison the source writes as \<open>a.cat.id === b.cat.id\<close> reads this key.\<close>

definition kind :: "CatBox \<Rightarrow> string" where
  "kind box = cat_id (cat box)"

subsection \<open>The matching group on top of a stack\<close>

text \<open>
  The loop of \<open>getMatchingTopBoxes\<close> from index 1 on: it pushes while the cat matches the
  top box and breaks at the first box that does not.
\<close>

fun matchingLoop :: "CatBox \<Rightarrow> Stack \<Rightarrow> Stack" where
  "matchingLoop topBox [] = []"
| "matchingLoop topBox (box # rest) =
     (if kind box = kind topBox then box # matchingLoop topBox rest else [])"

fun getMatchingTopBoxes :: "Stack \<Rightarrow> Stack" where
  "getMatchingTopBoxes [] = []"
| "getMatchingTopBoxes (topBox # rest) = topBox # matchingLoop topBox rest"

subsection \<open>Session state\<close>

text \<open>
  The component's state variables, one field each. Three fields make the surroundings
  of the component explicit: \<open>hasOnComplete\<close> says whether the optional
  \<open>onComplete\<close> property was passed, \<open>onCompleteCalls\<close> counts the calls made to
  it, and \<open>timers\<close> is the queue of callbacks handed to \<open>setTimeout\<close> that have
  not run yet (all with the same delay, so they run in the order they were set).
\<close>

datatype error = TypeError

record Move =
  move_from :: nat
  move_to :: nat
  move_count :: nat

record AnimatingBox =
  anim_id :: string
  fromStack :: nat
  toStack :: nat

text \<open>
  The callback of \<open>animateBoxMovement\<close> is a closure: it reads the \<open>stacks\<close> and the
  \<open>activeCats\<close> of the render in which it was created, and the two stack indices.
\<close>

record Timer =
  timer_stacks :: "Stack list"
  timer_activeCats :: "Cat list"
  timer_from :: nat
  timer_to :: nat

record Session =
  stacks :: "Stack list"
  selectedStackIndex :: "nat option"
  moveCount :: int
  isComplete :: bool
  isLost :: bool
  moves :: "Move list"
  animatingBoxes :: "AnimatingBox list"
  isAnimating :: bool
  activeCats :: "Cat list"
  hasOnComplete :: bool
  onCompleteCalls :: nat
  timers :: "Timer list"

subsection \<open>Completion check\<close>

text \<open>First check of \<open>checkCompletion\<close>: every non-empty stack shows one cat only.\<close>

definition eachStackValid :: "Stack list \<Rightarrow> bool" where
  "eachStackValid currentStacks =
     list_all (\<lambda>stack. if length stack = 0 then True
                        else list_all (\<lambda>box. kind box = kind (hd stack)) stack)
       currentStacks"

text \<open>
  The object \<open>catMap\<close> is an association list from cat ids to counts; a count can be
  \<open>-1\<close>, so counts are integers. The cat ids are taken not to name a property that every
  JavaScript object inherits (such as \<open>constructor\<close>), so that a lookup of an id that
  was never stored yields \<open>undefined\<close>.
\<close>

definition initCatMap :: "Cat list \<Rightarrow> (string \<times> int) list" where
  "initCatMap cats = fold (\<lambda>c catMap. AList.update (cat_id c) 0 catMap) cats []"

definition countStack :: "Stack \<Rightarrow> (string \<times> int) list \<Rightarrow> (string \<times> int) list" where
  "countStack stack catMap =
     (if length stack > 0 then
        (let stackcatId = kind (hd stack) in
           case map_of catMap stackcatId of
             None \<Rightarrow> catMap
           | Some n \<Rightarrow>
               if n = int MAX_STACK_SIZE then AList.update stackcatId (- 1) catMap
               else AList.update stackcatId (int (length stack)) catMap)
      else catMap)"

definition allcatsComplete :: "(string \<times> int) list \<Rightarrow> bool" where
  "allcatsComplete catMap = list_all (\<lambda>entry. snd entry = int MAX_STACK_SIZE) catMap"

text \<open>
  \<open>checkCompletion\<close> returns its verdict and the session after its effects: it stores the
  verdict in \<open>isComplete\<close> and, when the verdict is true and \<open>onComplete\<close> was
  passed, calls it.
\<close>

definition checkCompletion :: "Cat list \<Rightarrow> Stack list \<Rightarrow> Session \<Rightarrow> bool \<times> Session" where
  "checkCompletion cats currentStacks s =
     (if \<not> eachStackValid currentStacks then (False, s\<lparr>isComplete := False\<rparr>)
      else
        (let catMap = fold countStack currentStacks (initCatMap cats);
             complete = (eachStackValid currentStacks \<and> allcatsComplete catMap);
             s1 = s\<lparr>isComplete := complete\<rparr>;
             s2 = (if complete \<and> hasOnComplete s1
                   then s1\<lparr>onCompleteCalls := Suc (onCompleteCalls s1)\<rparr> else s1)
         in (complete, s2)))"

subsection \<open>Search for a valid move\<close>

text \<open>
  The body of the inner loop of \<open>checkForValidMoves\<close> for one destination index: true
  where the source returns true, false where the loop goes on.
\<close>

definition destinationAccepts :: "Stack list \<Rightarrow> nat \<Rightarrow> Stack \<Rightarrow> nat \<Rightarrow> bool" where
  "destinationAccepts currentStacks fromStackIndex matchingBoxes toStackIndex =
     (if fromStackIndex = toStackIndex then False
      else
        (let destStack = currentStacks ! toStackIndex in
           if length destStack + length matchingBoxes \<le> MAX_STACK_SIZE then
             (if length destStack = 0 then True
              else kind (hd destStack) = kind (hd matchingBoxes))
           else False))"

definition sourceHasMove :: "Stack list \<Rightarrow> nat \<Rightarrow> bool" where
  "sourceHasMove currentStacks fromStackIndex =
     (let sourceStack = currentStacks ! fromStackIndex in
        if length sourceStack = 0 then False
        else
          (let matchingBoxes = getMatchingTopBoxes sourceStack in
             list_ex (destinationAccepts currentStacks fromStackIndex matchingBoxes)
               [0..<length currentStacks]))"

definition checkForValidMoves :: "Stack list \<Rightarrow> bool" where
  "checkForValidMoves currentStacks =
     (if list_ex (\<lambda>stack. length stack = 0) currentStacks then True
      else list_ex (sourceHasMove currentStacks) [0..<length currentStacks])"

subsection \<open>Clicks, the timer callback and undo\<close>

text \<open>
  \<open>animateBoxMovement\<close> at the time of the call: it sets the animation flags and hands
  its callback to \<open>setTimeout\<close>.
\<close>

definition animateBoxMovement :: "string list \<Rightarrow> nat \<Rightarrow> nat \<Rightarrow> Session \<Rightarrow> Session" where
  "animateBoxMovement boxIds fromStackIndex toStackIndex s =
     s\<lparr>isAnimating := True,
       animatingBoxes :=
         map (\<lambda>i. \<lparr>anim_id = i, fromStack = fromStackIndex, toStack = toStackIndex\<rparr>) boxIds,
       timers := timers s @
         [\<lparr>timer_stacks = stacks s, timer_activeCats = activeCats s,
           timer_from = fromStackIndex, timer_to = toStackIndex\<rparr>]\<rparr>"

text \<open>
  The callback itself, for the oldest pending timer. Reading a stack at an index outside
  the board yields \<open>undefined\<close>, and the source then throws a \<open>TypeError\<close> when it
  asks for its length or spreads it.
\<close>

definition animationTimeout :: "Session \<Rightarrow> error + Session" where
  "animationTimeout s =
     (case timers s of
        [] \<Rightarrow> Inr s
      | t # pending \<Rightarrow>
          (let newStacks = timer_stacks t;
               fromStackIndex = timer_from t;
               toStackIndex = timer_to t
           in
             if \<not> fromStackIndex < length newStacks then Inl TypeError
             else
               (let sourceStack = newStacks ! fromStackIndex;
                    matchingBoxes = getMatchingTopBoxes sourceStack;
                    newStacks1 =
                      newStacks[fromStackIndex := drop (length matchingBoxes) sourceStack]
                in
                  if \<not> toStackIndex < length newStacks1 then Inl TypeError
                  else
                    (let newStacks2 =
                           newStacks1[toStackIndex := matchingBoxes @ newStacks1 ! toStackIndex];
                         s1 = s\<lparr>stacks := newStacks2, animatingBoxes := [],
                                isAnimating := False, timers := pending\<rparr>;
                         (isGameComplete, s2) =
                           checkCompletion (timer_activeCats t) newStacks2 s1
                     in
                       if \<not> isGameComplete then
                         (if \<not> checkForValidMoves newStacks2 then Inr (s2\<lparr>isLost := True\<rparr>)
                          else Inr s2)
                       else Inr s2))))"

definition handleStackClick :: "Session \<Rightarrow> nat \<Rightarrow> error + Session" where
  "handleStackClick s stackIndex =
     (if isComplete s \<or> isLost s \<or> isAnimating s then Inr s
      else
        case selectedStackIndex s of
          None \<Rightarrow>
            if \<not> stackIndex < length (stacks s) then Inl TypeError
            else if length (stacks s ! stackIndex) > 0
              then Inr (s\<lparr>selectedStackIndex := Some stackIndex\<rparr>)
              else Inr s
        | Some fromStackIndex \<Rightarrow>
            if fromStackIndex = stackIndex then Inr (s\<lparr>selectedStackIndex := None\<rparr>)
            else if \<not> fromStackIndex < length (stacks s) then Inl TypeError
            else
              (let sourceStack = stacks s ! fromStackIndex;
                   matchingBoxes = getMatchingTopBoxes sourceStack
               in
                 if \<not> stackIndex < length (stacks s) then Inl TypeError
                 else
                   (let destinationStack = stacks s ! stackIndex in
                      if length destinationStack + length matchingBoxes \<le> MAX_STACK_SIZE then
                        (if length destinationStack > 0 \<and> matchingBoxes = [] then Inl TypeError
                         else if length destinationStack > 0 \<and>
                                 (kind (hd destinationStack) \<noteq> kind (hd matchingBoxes) \<and>
                                  length destinationStack > 0)
                           then Inr (s\<lparr>selectedStackIndex := None\<rparr>)
                         else
                           (let s1 = s\<lparr>moveCount := moveCount s + 1\<rparr>;
                                s2 = s1\<lparr>moves := moves s @
                                       [\<lparr>move_from = fromStackIndex, move_to = stackIndex,
                                         move_count = length matchingBoxes\<rparr>]\<rparr>;
                                boxIds = map box_id matchingBoxes;
                                s3 = animateBoxMovement boxIds fromStackIndex stackIndex s2
                            in Inr (s3\<lparr>selectedStackIndex := None\<rparr>)))
                      else Inr (s\<lparr>selectedStackIndex := None\<rparr>))))"

definition undoMove :: "Session \<Rightarrow> error + Session" where
  "undoMove s =
     (if length (moves s) = 0 \<or> isComplete s \<or> isAnimating s then Inr s
      else
        (let lastMove = last (moves s) in
           if \<not> move_to lastMove < length (stacks s) then Inl TypeError
           else
             (let boxesToMoveBack = take (move_count lastMove) (stacks s ! move_to lastMove);
                  boxIds = map box_id boxesToMoveBack;
                  s1 = animateBoxMovement boxIds (move_to lastMove) (move_from lastMove) s
              in Inr (s1\<lparr>moveCount := moveCount s1 - 1,
                         moves := butlast (moves s),
                         isComplete := False,
                         isLost := False\<rparr>))))"

subsection \<open>Starting a game and running a session\<close>

text \<open>
  The state that \<open>initializeGame\<close> stores once a board has passed its checks. Its
  callers store the cats of the game in \<open>activeCats\<close> first. No timer is pending
  then: the difficulty and reset buttons are disabled while a move is animated.
\<close>

definition storeNewGame :: "Stack list \<Rightarrow> Session \<Rightarrow> Session" where
  "storeNewGame newStacks s =
     s\<lparr>stacks := newStacks, selectedStackIndex := None, moveCount := 0,
       isComplete := False, isLost := False, moves := [], animatingBoxes := [],
       isAnimating := False\<rparr>"

definition startGame :: "Stack list \<Rightarrow> Cat list \<Rightarrow> Session \<Rightarrow> Session" where
  "startGame newStacks gameCats s = storeNewGame newStacks (s\<lparr>activeCats := gameCats\<rparr>)"

definition mountedSession :: "bool \<Rightarrow> Session" where
  "mountedSession withOnComplete =
     \<lparr>stacks = [], selectedStackIndex = None, moveCount = 0, isComplete = False,
      isLost = False, moves = [], animatingBoxes = [], isAnimating = False,
      activeCats = [], hasOnComplete = withOnComplete, onCompleteCalls = 0, timers = []\<rparr>"

definition newSession :: "Stack list \<Rightarrow> Cat list \<Rightarrow> bool \<Rightarrow> Session" where
  "newSession newStacks gameCats withOnComplete =
     startGame newStacks gameCats (mountedSession withOnComplete)"

text \<open>
  What a user and the clock can do to a session. A handler that throws leaves the state
  as it was; a timer callback that throws is gone from the queue all the same. A new game
  can only be started while no move is animated.
\<close>

datatype event = Click nat | Undo | Timeout | NewGame "Stack list" "Cat list"

fun step :: "Session \<Rightarrow> event \<Rightarrow> Session" where
  "step s (Click stackIndex) =
     (case handleStackClick s stackIndex of Inl e \<Rightarrow> s | Inr s' \<Rightarrow> s')"
| "step s Undo = (case undoMove s of Inl e \<Rightarrow> s | Inr s' \<Rightarrow> s')"
| "step s Timeout =
     (case animationTimeout s of Inl e \<Rightarrow> s\<lparr>timers := tl (timers s)\<rparr> | Inr s' \<Rightarrow> s')"
| "step s (NewGame newStacks gameCats) =
     (if isAnimating s then s else startGame newStacks gameCats s)"

fun run :: "Session \<Rightarrow> event list \<Rightarrow> Session" where
  "run s [] = s"
| "run s (e # es) = run (step s e) es"

subsection \<open>Generating a board\<close>

text \<open>
  The difficulty levels and their configurations. The numbers of a configuration are
  natural numbers with at most as many empty stacks as stacks, as in all three levels.
\<close>

datatype Difficulty = easy | medium | hard

record Config =
  cfg_cats :: nat
  cfg_stacks :: nat
  cfg_emptyStacks :: nat
  cfg_breakupProbability :: real

definition DIFFICULTY_CONFIG :: "Difficulty \<Rightarrow> Config" where
  "DIFFICULTY_CONFIG d =
     (case d of
        easy \<Rightarrow> \<lparr>cfg_cats = 4, cfg_stacks = 6, cfg_emptyStacks = 2, cfg_breakupProbability = 1 / 10\<rparr>
      | medium \<Rightarrow> \<lparr>cfg_cats = 6, cfg_stacks = 8, cfg_emptyStacks = 2, cfg_breakupProbability = 3 / 10\<rparr>
      | hard \<Rightarrow> \<lparr>cfg_cats = 8, cfg_stacks = 10, cfg_emptyStacks = 2, cfg_breakupProbability = 1 / 2\<rparr>)"

text \<open>
  \<open>Math.random()\<close> is a stream of draws; each call takes the head. The language
  promises draws from 0 up to but not including 1, which \<open>drawsInRange\<close> states, and
  products with a length are taken exactly.
\<close>

type_synonym rnd = "real stream"

definition drawsInRange :: "rnd \<Rightarrow> bool" where
  "drawsInRange r = (\<forall>x \<in> sset r. 0 \<le> x \<and> x < 1)"

text \<open>
  \<open>Array.prototype.sort\<close> belongs to the JavaScript engine, and so does
  \<open>String.prototype.localeCompare\<close>: the generator takes both as parameters. A
  comparison function may draw random numbers, so a sort passes the stream through its
  comparisons. The two comparison functions are those of the source:
  \<open>() => Math.random() - 0.5\<close> and \<open>(a, b) => a.cat.id.localeCompare(b.cat.id)\<close>.
\<close>

type_synonym comparator = "CatBox \<Rightarrow> CatBox \<Rightarrow> rnd \<Rightarrow> real \<times> rnd"

type_synonym sorter = "comparator \<Rightarrow> Stack \<Rightarrow> rnd \<Rightarrow> Stack \<times> rnd"

definition randomOrder :: comparator where
  "randomOrder a b r = (shd r - 1 / 2, stl r)"

definition byCatId :: "(string \<Rightarrow> string \<Rightarrow> real) \<Rightarrow> comparator" where
  "byCatId localeCompare a b r = (localeCompare (kind a) (kind b), r)"

text \<open>
  What is known of any engine's sort with these two comparison functions: the result
  is a rearrangement of the array, and the draws left over are a suffix of the stream.
\<close>

definition permutingSort :: "sorter \<Rightarrow> (string \<Rightarrow> string \<Rightarrow> real) \<Rightarrow> bool" where
  "permutingSort sortBoxes localeCompare =
     (\<forall>stack r.
        mset (fst (sortBoxes randomOrder stack r)) = mset stack \<and>
        (\<exists>n. snd (sortBoxes randomOrder stack r) = sdrop n r) \<and>
        mset (fst (sortBoxes (byCatId localeCompare) stack r)) = mset stack \<and>
        (\<exists>n. snd (sortBoxes (byCatId localeCompare) stack r) = sdrop n r))"

text \<open>Four boxes per cat, with ids made of the cat's id and the index 0 to 3.\<close>

definition decimalDigit :: "nat \<Rightarrow> string" where
  "decimalDigit i = [''0123456789'' ! i]"

definition createBoxes :: "Cat list \<Rightarrow> Stack" where
  "createBoxes availableCats =
     concat (map (\<lambda>c. map (\<lambda>i. \<lparr>box_id = cat_id c @ ''-'' @ decimalDigit i, cat = c\<rparr>)
                          [0..<MAX_STACK_SIZE]) availableCats)"

text \<open>
  Reading an array at an index: \<open>None\<close> stands for \<open>undefined\<close>, which JavaScript
  yields outside the array.
\<close>

definition boxAt :: "Stack \<Rightarrow> int \<Rightarrow> CatBox option" where
  "boxAt stack i = (if 0 \<le> i \<and> nat i < length stack then Some (stack ! nat i) else None)"

definition stackAt :: "Stack list \<Rightarrow> int \<Rightarrow> Stack option" where
  "stackAt newStacks i =
     (if 0 \<le> i \<and> nat i < length newStacks then Some (newStacks ! nat i) else None)"

text \<open>
  The loop that groups some boxes of one cat in front. \<open>removeById\<close> is the
  \<open>findIndex\<close> and \<open>splice\<close> pair: it removes the first box with the given id. The
  first argument of \<open>preMatchLoop\<close> counts the rounds that are left.
\<close>

fun removeById :: "string \<Rightarrow> Stack \<Rightarrow> Stack" where
  "removeById i [] = []"
| "removeById i (b # bs) = (if box_id b = i then bs else b # removeById i bs)"

fun preMatchLoop :: "nat \<Rightarrow> Stack \<Rightarrow> Stack \<Rightarrow> rnd \<Rightarrow> error + Stack \<times> Stack \<times> rnd" where
  "preMatchLoop 0 organizedBoxes remainingBoxes r = Inr (organizedBoxes, remainingBoxes, r)"
| "preMatchLoop (Suc n) organizedBoxes remainingBoxes r =
     (if length remainingBoxes > 0 then
        (case boxAt remainingBoxes \<lfloor>shd r * real (length remainingBoxes)\<rfloor> of
           None \<Rightarrow> Inl TypeError
         | Some chosen \<Rightarrow>
             (let catId = kind chosen;
                  samecatBoxes = filter (\<lambda>b. kind b = catId) remainingBoxes;
                  pairSize = min 3 (length samecatBoxes);
                  selectedBoxes = take pairSize samecatBoxes
              in preMatchLoop n (organizedBoxes @ selectedBoxes)
                   (fold (\<lambda>b remaining. removeById (box_id b) remaining)
                      selectedBoxes remainingBoxes)
                   (stl r)))
      else Inr (organizedBoxes, remainingBoxes, r))"

text \<open>
  Filling the stacks, and the \<open>while\<close> loop that deals out what is left over. The loop
  runs forever when boxes are left and every filled stack is full, so it is a partial
  function: \<open>None\<close> means that it does not return.
\<close>

definition fillStack :: "Stack \<Rightarrow> nat \<Rightarrow> nat \<Rightarrow> Stack" where
  "fillStack mixedBoxes boxesPerStack i =
     map (\<lambda>boxIndex. mixedBoxes ! boxIndex)
       (filter (\<lambda>boxIndex. boxIndex < length mixedBoxes)
          (map (\<lambda>j. i * boxesPerStack + j) [0..<boxesPerStack]))"

partial_function (option) distributeLeftover ::
    "nat \<Rightarrow> Stack list \<Rightarrow> Stack \<Rightarrow> nat \<Rightarrow> Stack list option" where
  "distributeLeftover filledStacks newStacks leftoverBoxes stackIndex =
     (if length leftoverBoxes > 0 \<and> stackIndex < filledStacks then
        (if length (newStacks ! stackIndex) < MAX_STACK_SIZE
         then distributeLeftover filledStacks
                (newStacks[stackIndex := newStacks ! stackIndex @ [hd leftoverBoxes]])
                (tl leftoverBoxes) ((stackIndex + 1) mod filledStacks)
         else distributeLeftover filledStacks newStacks leftoverBoxes
                ((stackIndex + 1) mod filledStacks))
      else Some newStacks)"

text \<open>A loop whose body can throw stops at the first error.\<close>

fun foldE :: "('a \<Rightarrow> 'b \<Rightarrow> error + 'b) \<Rightarrow> 'a list \<Rightarrow> 'b \<Rightarrow> error + 'b" where
  "foldE f [] acc = Inr acc"
| "foldE f (x # xs) acc = (case f x acc of Inl e \<Rightarrow> Inl e | Inr acc' \<Rightarrow> foldE f xs acc')"

text \<open>
  The three assignments that swap box \<open>j\<close> of stack \<open>i\<close> with a box of another
  stack. Where the other box is \<open>undefined\<close> the source stores it in stack \<open>i\<close>; no
  later step removes it, and the first code to read its cat throws a \<open>TypeError\<close>, at
  the latest the count of the boxes at the end of the generator, before any state is
  stored. The model reports that error at once.
\<close>

definition swapBoxes ::
    "Stack list \<Rightarrow> nat \<Rightarrow> nat \<Rightarrow> int \<Rightarrow> int \<Rightarrow> error + Stack list" where
  "swapBoxes newStacks i j randomStackIndex randomBoxIndex =
     (case stackAt newStacks randomStackIndex of
        None \<Rightarrow> Inl TypeError
      | Some other \<Rightarrow>
          (case boxAt other randomBoxIndex of
             None \<Rightarrow> Inl TypeError
           | Some theirs \<Rightarrow>
               (let temp = newStacks ! i ! j;
                    newStacks1 = newStacks[i := (newStacks ! i)[j := theirs]]
                in Inr (newStacks1[nat randomStackIndex :=
                          (newStacks1 ! nat randomStackIndex)[nat randomBoxIndex := temp]]))))"

text \<open>Easy level: each filled stack is sorted by cat id with probability 0.7.\<close>

definition groupStep ::
    "sorter \<Rightarrow> (string \<Rightarrow> string \<Rightarrow> real) \<Rightarrow> nat \<Rightarrow> Stack list \<times> rnd \<Rightarrow> Stack list \<times> rnd" where
  "groupStep sortBoxes localeCompare i state =
     (let newStacks = fst state; r = snd state in
        if shd r < 7 / 10 then
          (let sorted = sortBoxes (byCatId localeCompare) (newStacks ! i) (stl r)
           in (newStacks[i := fst sorted], snd sorted))
        else (newStacks, stl r))"

text \<open>
  Other levels: each filled stack is shuffled, and a stack of four boxes of one cat
  swaps its top box with a random box of another filled stack. \<open>%\<close> is the truncating
  remainder.
\<close>

definition otherStackIndex :: "nat \<Rightarrow> nat \<Rightarrow> real \<Rightarrow> int" where
  "otherStackIndex i filledStacks x =
     (int i + 1 + \<lfloor>x * real_of_int (int filledStacks - 1)\<rfloor>) smod int filledStacks"

definition shuffleStep ::
    "sorter \<Rightarrow> nat \<Rightarrow> nat \<Rightarrow> Stack list \<times> rnd \<Rightarrow> error + Stack list \<times> rnd" where
  "shuffleStep sortBoxes filledStacks i state =
     (let shuffled = sortBoxes randomOrder (fst state ! i) (snd state);
          newStacks = (fst state)[i := fst shuffled];
          r = snd shuffled
      in
        if length (newStacks ! i) > 0 then
          (let allSamecat = list_all (\<lambda>b. kind b = kind (hd (newStacks ! i))) (newStacks ! i) in
             if allSamecat \<and> length (newStacks ! i) = MAX_STACK_SIZE then
               (let randomStackIndex = otherStackIndex i filledStacks (shd r) in
                  case stackAt newStacks randomStackIndex of
                    None \<Rightarrow> Inl TypeError
                  | Some other \<Rightarrow>
                      (let randomBoxIndex = \<lfloor>shd (stl r) * real (length other)\<rfloor> in
                         case swapBoxes newStacks i 0 randomStackIndex randomBoxIndex of
                           Inl e \<Rightarrow> Inl e
                         | Inr swapped \<Rightarrow> Inr (swapped, stl (stl r))))
             else Inr (newStacks, r))
        else Inr (newStacks, r))"

text \<open>
  All levels: a box that shows the same cat as the box before it is swapped away with
  the configured probability. The random number is only drawn when the cats are equal.
\<close>

definition breakupStep ::
    "Config \<Rightarrow> nat \<Rightarrow> nat \<Rightarrow> nat \<Rightarrow> Stack list \<times> rnd \<Rightarrow> error + Stack list \<times> rnd" where
  "breakupStep config filledStacks i j state =
     (let newStacks = fst state; r = snd state in
        if kind (newStacks ! i ! j) = kind (newStacks ! i ! (j - 1)) then
          (if shd r < cfg_breakupProbability config then
             (let randomStackIndex = otherStackIndex i filledStacks (shd (stl r)) in
                case stackAt newStacks randomStackIndex of
                  None \<Rightarrow> Inl TypeError
                | Some other \<Rightarrow>
                    if length other > 0 then
                      (let randomBoxIndex = \<lfloor>shd (stl (stl r)) * real (length other)\<rfloor> in
                         case swapBoxes newStacks i j randomStackIndex randomBoxIndex of
                           Inl e \<Rightarrow> Inl e
                         | Inr swapped \<Rightarrow> Inr (swapped, stl (stl (stl r))))
                    else Inr (newStacks, stl (stl r)))
           else Inr (newStacks, stl r))
        else Inr (newStacks, r))"

definition breakupRow ::
    "Config \<Rightarrow> nat \<Rightarrow> nat \<Rightarrow> Stack list \<times> rnd \<Rightarrow> error + Stack list \<times> rnd" where
  "breakupRow config filledStacks i state =
     foldE (breakupStep config filledStacks i) [1..<length (fst state ! i)] state"

text \<open>
  One attempt of \<open>initializeGame\<close>, up to the checks. The level is read from the
  component's state, the configuration is the argument. With no filled stack the
  division for \<open>boxesPerStack\<close> is by zero; the value is not used then, since no
  stack is filled.
\<close>

definition generateStacks ::
    "sorter \<Rightarrow> (string \<Rightarrow> string \<Rightarrow> real) \<Rightarrow> Difficulty \<Rightarrow> Cat list \<Rightarrow> Config \<Rightarrow> rnd
       \<Rightarrow> (error + Stack list \<times> rnd) option" where
  "generateStacks sortBoxes localeCompare difficulty availableCats config r =
     (let allBoxes = createBoxes availableCats;
          shuffled = sortBoxes randomOrder allBoxes r;
          shuffledBoxes = fst shuffled;
          filledStacks = cfg_stacks config - cfg_emptyStacks config;
          boxesPerStack =
            (if filledStacks = 0 then MAX_STACK_SIZE
             else min MAX_STACK_SIZE ((length allBoxes + filledStacks - 1) div filledStacks));
          preMatchedPairs = (case difficulty of easy \<Rightarrow> 4 | medium \<Rightarrow> 3 | hard \<Rightarrow> 2)
      in
        case preMatchLoop preMatchedPairs [] shuffledBoxes (snd shuffled) of
          Inl e \<Rightarrow> Some (Inl e)
        | Inr (organizedBoxes, remainingBoxes, r1) \<Rightarrow>
            (let mixedBoxes = organizedBoxes @ remainingBoxes;
                 filled = map (fillStack mixedBoxes boxesPerStack) [0..<filledStacks];
                 leftoverBoxes = drop (filledStacks * boxesPerStack) mixedBoxes
             in
               case distributeLeftover filledStacks filled leftoverBoxes 0 of
                 None \<Rightarrow> None
               | Some distributed \<Rightarrow>
                   (let newStacks = distributed @ replicate (cfg_emptyStacks config) [];
                        grouped =
                          (if difficulty = easy
                           then fold (groupStep sortBoxes localeCompare) [0..<filledStacks]
                                  (newStacks, r1)
                           else (newStacks, r1))
                    in
                      case (if difficulty \<noteq> easy
                            then foldE (shuffleStep sortBoxes filledStacks) [0..<filledStacks] grouped
                            else Inr grouped) of
                        Inl e \<Rightarrow> Some (Inl e)
                      | Inr shuffledStacks \<Rightarrow>
                          Some (foldE (breakupRow config filledStacks) [0..<filledStacks]
                                  shuffledStacks))))"

text \<open>
  The two checks. \<open>catCounts\<close> is an association list from cat ids to counts, under
  the same proviso on cat ids as \<open>catMap\<close>.
\<close>

definition oversizedStacks :: "Stack list \<Rightarrow> bool" where
  "oversizedStacks newStacks = list_ex (\<lambda>stack. length stack > MAX_STACK_SIZE) newStacks"

definition countCat :: "CatBox \<Rightarrow> (string \<times> nat) list \<Rightarrow> (string \<times> nat) list" where
  "countCat b catCounts =
     AList.update (kind b)
       ((case map_of catCounts (kind b) of None \<Rightarrow> 0 | Some n \<Rightarrow> n) + 1) catCounts"

definition catCountsOf :: "Stack list \<Rightarrow> (string \<times> nat) list" where
  "catCountsOf newStacks = fold (\<lambda>stack catCounts. fold countCat stack catCounts) newStacks []"

definition tooManyBoxesOfOnecat :: "Stack list \<Rightarrow> bool" where
  "tooManyBoxesOfOnecat newStacks =
     list_ex (\<lambda>entry. snd entry > MAX_STACK_SIZE) (catCountsOf newStacks)"

text \<open>
  \<open>initializeGame\<close>: with no cats it returns at once; a board that fails a check makes
  it call itself again, with the draws that are left. It is a partial function:
  \<open>None\<close> means that the call does not return.
\<close>

partial_function (option) initializeGame ::
    "sorter \<Rightarrow> (string \<Rightarrow> string \<Rightarrow> real) \<Rightarrow> Difficulty \<Rightarrow> Cat list \<Rightarrow> Config \<Rightarrow> rnd \<Rightarrow> Session
       \<Rightarrow> (error + Session \<times> rnd) option" where
  "initializeGame sortBoxes localeCompare difficulty availableCats config r s =
     (if length availableCats = 0 then Some (Inr (s, r))
      else
        case generateStacks sortBoxes localeCompare difficulty availableCats config r of
          None \<Rightarrow> None
        | Some (Inl e) \<Rightarrow> Some (Inl e)
        | Some (Inr (newStacks, r')) \<Rightarrow>
            if oversizedStacks newStacks \<or> tooManyBoxesOfOnecat newStacks
            then initializeGame sortBoxes localeCompare difficulty availableCats config r' s
            else Some (Inr (storeNewGame newStacks s, r')))"

text \<open>
  The retry as the specification words it: at most \<open>n\<close> attempts, and an explicit
  failure signal when all of them failed the checks.
\<close>

datatype outcome = Stored "Session \<times> rnd" | Thrown error | RetriesExhausted

fun boundedInitializeGame ::
    "nat \<Rightarrow> sorter \<Rightarrow> (string \<Rightarrow> string \<Rightarrow> real) \<Rightarrow> Difficulty \<Rightarrow> Cat list \<Rightarrow> Config \<Rightarrow> rnd
       \<Rightarrow> Session \<Rightarrow> outcome option" where
  "boundedInitializeGame 0 sortBoxes localeCompare difficulty availableCats config r s =
     Some RetriesExhausted"
| "boundedInitializeGame (Suc n) sortBoxes localeCompare difficulty availableCats config r s =
     (if length availableCats = 0 then Some (Stored (s, r))
      else
        case generateStacks sortBoxes localeCompare difficulty availableCats config r of
          None \<Rightarrow> None
        | Some (Inl e) \<Rightarrow> Some (Thrown e)
        | Some (Inr (newStacks, r')) \<Rightarrow>
            if oversizedStacks newStacks \<or> tooManyBoxesOfOnecat newStacks
            then boundedInitializeGame n sortBoxes localeCompare difficulty availableCats config r' s
            else Some (Stored (storeNewGame newStacks s, r')))"

definition outcomeOf :: "error + Session \<times> rnd \<Rightarrow> outcome" where
  "outcomeOf res = (case res of Inl e \<Rightarrow> Thrown e | Inr stored \<Rightarrow> Stored stored)"

text \<open>
  One sort an engine may use: a stable insertion sort that asks the comparison function
  once for each pair it compares.
\<close>

fun insertBox :: "comparator \<Rightarrow> CatBox \<Rightarrow> Stack \<Rightarrow> rnd \<Rightarrow> Stack \<times> rnd" where
  "insertBox cmp x [] r = ([x], r)"
| "insertBox cmp x (y # ys) r =
     (let c = cmp x y r in
        if fst c \<le> 0 then (x # y # ys, snd c)
        else (let rest = insertBox cmp x ys (snd c) in (y # fst rest, snd rest)))"

fun insertionSort :: sorter where
  "insertionSort cmp [] r = ([], r)"
| "insertionSort cmp (x # xs) r =
     (let sorted = insertionSort cmp xs r in insertBox cmp x (fst sorted) (snd sorted))"

text \<open>One comparison a locale may make: by code units, shorter strings first.\<close>

fun codeUnitCompare :: "string \<Rightarrow> string \<Rightarrow> real" where
  "codeUnitCompare [] [] = 0"
| "codeUnitCompare [] (y # ys) = - 1"
| "codeUnitCompare (x # xs) [] = 1"
| "codeUnitCompare (x # xs) (y # ys) =
     (if (of_char x :: nat) < of_char y then - 1
      else if (of_char y :: nat) < of_char x then 1
      else codeUnitCompare xs ys)"

text \<open>Cats in play are told apart by their ids.\<close>

definition catsById :: "Cat list \<Rightarrow> bool" where
  "catsById availableCats =
     (\<forall>c \<in> set availableCats. \<forall>c' \<in> set availableCats. cat_id c = cat_id c' \<longrightarrow> c = c')"

subsection \<open>Well-formed sessions\<close>

text \<open>
  What every session that starts with a new game keeps true: the counter is the length
  of the history, every recorded move names stacks of the board, and a pending timer is
  the only one, was set while the animation flag is up and the game is not complete,
  and holds a board of the same size with indices inside it.
\<close>

definition sessionInvariant :: "Session \<Rightarrow> bool" where
  "sessionInvariant s =
     (moveCount s = int (length (moves s)) \<and>
      (\<forall>m \<in> set (moves s).
         move_from m < length (stacks s) \<and> move_to m < length (stacks s)) \<and>
      (\<forall>t \<in> set (timers s).
         isAnimating s \<and> \<not> isComplete s \<and> timers s = [t] \<and>
         length (timer_stacks t) = length (stacks s) \<and>
         timer_from t < length (stacks s) \<and> timer_to t < length (stacks s)))"

subsection \<open>The specification's wording\<close>

text \<open>
  The legality condition of a move as the specification words it, for the group to move
  and the destination stack.
\<close>

definition legalMove :: "Stack \<Rightarrow> Stack \<Rightarrow> bool" where
  "legalMove grp dest =
     (length dest + length grp \<le> MAX_STACK_SIZE \<and>
      (dest = [] \<or> kind (hd dest) = kind (hd grp)))"

text \<open>The number of boxes of one cat in a stack, and on a whole board.\<close>

definition countKind :: "string \<Rightarrow> Stack \<Rightarrow> nat" where
  "countKind k stack = length (filter (\<lambda>box. kind box = k) stack)"

definition kindTotal :: "string \<Rightarrow> Stack list \<Rightarrow> nat" where
  "kindTotal k board = sum_list (map (countKind k) board)"

text \<open>
  Completion as the specification words it: every non-empty stack holds a single cat,
  and for every cat in play the stacks that hold any box of it are exactly one, which
  holds four of them.
\<close>

definition singleKindStacks :: "Stack list \<Rightarrow> bool" where
  "singleKindStacks board =
     (\<forall>stack \<in> set board. \<forall>b \<in> set stack. kind b = kind (hd stack))"

definition kindTogether :: "string \<Rightarrow> Stack list \<Rightarrow> bool" where
  "kindTogether k board =
     (filter (\<lambda>n. n > 0) (map (countKind k) board) = [MAX_STACK_SIZE])"

definition completeBoard :: "Cat list \<Rightarrow> Stack list \<Rightarrow> bool" where
  "completeBoard cats board =
     (singleKindStacks board \<and> (\<forall>c \<in> set cats. kindTogether (cat_id c) board))"

subsection \<open>An auxiliary function for the proofs\<close>

text \<open>
  What the counting loop of \<open>checkCompletion\<close> leaves under one key that starts with
  the count \<open>v\<close>: only the stacks whose top box shows that cat touch the entry.
\<close>

fun tally :: "string \<Rightarrow> Stack list \<Rightarrow> int \<Rightarrow> int" where
  "tally k [] v = v"
| "tally k (stack # rest) v =
     tally k rest
       (if stack \<noteq> [] \<and> kind (hd stack) = k
        then (if v = int MAX_STACK_SIZE then - 1 else int (length stack)) else v)"

text \<open>Boxes that are told apart by their ids.\<close>

definition boxesById :: "Stack \<Rightarrow> bool" where
  "boxesById boxes = (\<forall>x \<in> set boxes. \<forall>y \<in> set boxes. box_id x = box_id y \<longrightarrow> x = y)"

text \<open>
  What the later phases of the generator keep of a board and of the stream: the length
  of every stack, the boxes on the board as a multiset, and draws in range.
\<close>

definition keeps :: "CatBox multiset \<Rightarrow> nat list \<Rightarrow> Stack list \<times> rnd \<Rightarrow> bool" where
  "keeps M shape state =
     (map length (fst state) = shape \<and> mset (concat (fst state)) = M \<and>
      drawsInRange (snd state))"

subsection \<open>Sample cats, boxes and boards\<close>

definition sampleCat :: "string \<Rightarrow> Cat" where
  "sampleCat i =
     \<lparr>cat_id = ''cat-'' @ i, cat_name = ''Whiskers'', cat_image = ''https://placecats.com/64/64'',
      primaryColor = ''#f39c12'', secondaryColor = Some ''#e67e22''\<rparr>"

definition sampleBox :: "string \<Rightarrow> string \<Rightarrow> CatBox" where
  "sampleBox i n = \<lparr>box_id = ''cat-'' @ i @ ''-'' @ n, cat = sampleCat i\<rparr>"

definition sampleCats :: "Cat list" where
  "sampleCats = [sampleCat ''0'', sampleCat ''1'', sampleCat ''2'', sampleCat ''3'']"

text \<open>
  Boards of the easy level: four cats, four full stacks and two empty ones. Easy boards
  are not perturbed against sorted stacks, so each of these can come out of the generator.
\<close>

definition mixedBoard :: "Stack list" where
  "mixedBoard =
     [[sampleBox ''0'' ''0'', sampleBox ''1'' ''0'', sampleBox ''2'' ''0'', sampleBox ''3'' ''0''],
      [sampleBox ''0'' ''1'', sampleBox ''1'' ''1'', sampleBox ''2'' ''1'', sampleBox ''3'' ''1''],
      [sampleBox ''0'' ''2'', sampleBox ''1'' ''2'', sampleBox ''2'' ''2'', sampleBox ''3'' ''2''],
      [sampleBox ''0'' ''3'', sampleBox ''1'' ''3'', sampleBox ''2'' ''3'', sampleBox ''3'' ''3''],
      [], []]"

definition twistedBoard :: "Stack list" where
  "twistedBoard =
     [[sampleBox ''0'' ''0'', sampleBox ''1'' ''0'', sampleBox ''1'' ''1'', sampleBox ''1'' ''2''],
      [sampleBox ''1'' ''3'', sampleBox ''0'' ''1'', sampleBox ''0'' ''2'', sampleBox ''0'' ''3''],
      [sampleBox ''2'' ''0'', sampleBox ''2'' ''1'', sampleBox ''2'' ''2'', sampleBox ''2'' ''3''],
      [sampleBox ''3'' ''0'', sampleBox ''3'' ''1'', sampleBox ''3'' ''2'', sampleBox ''3'' ''3''],
      [], []]"

definition sortedBoard :: "Stack list" where
  "sortedBoard =
     [[sampleBox ''0'' ''0'', sampleBox ''0'' ''1'', sampleBox ''0'' ''2'', sampleBox ''0'' ''3''],
      [sampleBox ''1'' ''0'', sampleBox ''1'' ''1'', sampleBox ''1'' ''2'', sampleBox ''1'' ''3''],
      [sampleBox ''2'' ''0'', sampleBox ''2'' ''1'', sampleBox ''2'' ''2'', sampleBox ''2'' ''3''],
      [sampleBox ''3'' ''0'', sampleBox ''3'' ''1'', sampleBox ''3'' ''2'', sampleBox ''3'' ''3''],
      [], []]"

definition pairedBoard :: "Stack list" where
  "pairedBoard =
     [[sampleBox ''0'' ''0'', sampleBox ''0'' ''1'', sampleBox ''1'' ''0'', sampleBox ''1'' ''1''],
      [sampleBox ''1'' ''2'', sampleBox ''1'' ''3'', sampleBox ''0'' ''2'', sampleBox ''0'' ''3''],
      [sampleBox ''2'' ''0'', sampleBox ''2'' ''1'', sampleBox ''2'' ''2'', sampleBox ''2'' ''3''],
      [sampleBox ''3'' ''0'', sampleBox ''3'' ''1'', sampleBox ''3'' ''2'', sampleBox ''3'' ''3''],
      [], []]"

text \<open>A position one move away from the sorted one, and a position with no empty stack.\<close>

definition nearlySortedBoard :: "Stack list" where
  "nearlySortedBoard =
     [[sampleBox ''0'' ''1'', sampleBox ''0'' ''2'', sampleBox ''0'' ''3''],
      [sampleBox ''1'' ''0'', sampleBox ''1'' ''1'', sampleBox ''1'' ''2'', sampleBox ''1'' ''3''],
      [sampleBox ''2'' ''0'', sampleBox ''2'' ''1'', sampleBox ''2'' ''2'', sampleBox ''2'' ''3''],
      [sampleBox ''3'' ''0'', sampleBox ''3'' ''1'', sampleBox ''3'' ''2'', sampleBox ''3'' ''3''],
      [sampleBox ''0'' ''0''], []]"

definition crowdedBoard :: "Stack list" where
  "crowdedBoard =
     [[sampleBox ''0'' ''0'', sampleBox ''1'' ''0''],
      [sampleBox ''0'' ''1'', sampleBox ''1'' ''1'', sampleBox ''1'' ''2'']]"

text \<open>A list that names the same cat twice, and a configuration with two filled stacks.\<close>

definition twinCats :: "Cat list" where
  "twinCats = [sampleCat ''0'', sampleCat ''0'']"

definition twoStackConfig :: Config where
  "twoStackConfig =
     \<lparr>cfg_cats = 2, cfg_stacks = 4, cfg_emptyStacks = 2, cfg_breakupProbability = 1 / 10\<rparr>"

subsection \<open>Facts about the matching group\<close>

lemma matchingLoop_takeWhile:
  "matchingLoop topBox rest = takeWhile (\<lambda>box. kind box = kind topBox) rest"
  by (induction rest) simp_all

lemma getMatchingTopBoxes_takeWhile:
  "getMatchingTopBoxes stack = takeWhile (\<lambda>box. kind box = kind (hd stack)) stack"
  by (cases stack) (simp_all add: matchingLoop_takeWhile)

lemma getMatchingTopBoxes_append_drop:
  "getMatchingTopBoxes stack @ drop (length (getMatchingTopBoxes stack)) stack = stack"
  by (simp only: getMatchingTopBoxes_takeWhile dropWhile_eq_drop [symmetric]
      takeWhile_dropWhile_id)

lemma getMatchingTopBoxes_length_le:
  "length (getMatchingTopBoxes stack) \<le> length stack"
  by (simp add: getMatchingTopBoxes_takeWhile length_takeWhile_le)

lemma getMatchingTopBoxes_Nil_iff:
  "getMatchingTopBoxes stack = [] \<longleftrightarrow> stack = []"
  by (cases stack) simp_all

lemma getMatchingTopBoxes_hd:
  "stack \<noteq> [] \<Longrightarrow> hd (getMatchingTopBoxes stack) = hd stack"
  by (cases stack) simp_all

lemma getMatchingTopBoxes_kind:
  "box \<in> set (getMatchingTopBoxes stack) \<Longrightarrow> kind box = kind (hd stack)"
  by (auto simp: getMatchingTopBoxes_takeWhile dest: set_takeWhileD)

text \<open>
  Claim C7. The group returned for a stack is the longest run of boxes, counted from the
  top at index 0, whose cat is the cat of the top box: the stack is the group followed
  by a remainder, every box of the group has the top box's cat, and the remainder is
  either empty or starts with a box of another cat. The empty stack gives the empty
  group.
\<close>

theorem getMatchingTopBoxes_maximal_prefix:
  "getMatchingTopBoxes [] = [] \<and>
   (\<exists>rest. stack = getMatchingTopBoxes stack @ rest \<and>
      (\<forall>box \<in> set (getMatchingTopBoxes stack). kind box = kind (hd stack)) \<and>
      (rest \<noteq> [] \<longrightarrow> kind (hd rest) \<noteq> kind (hd stack))) \<and>
   getMatchingTopBoxes stack = takeWhile (\<lambda>box. kind box = kind (hd stack)) stack"
proof -
  let ?p = "\<lambda>box. kind box = kind (hd stack)"
  have split: "stack = getMatchingTopBoxes stack @ dropWhile ?p stack"
    by (simp add: getMatchingTopBoxes_takeWhile)
  have same: "\<forall>box \<in> set (getMatchingTopBoxes stack). ?p box"
    using getMatchingTopBoxes_kind by blast
  have stop: "dropWhile ?p stack \<noteq> [] \<longrightarrow> \<not> ?p (hd (dropWhile ?p stack))"
    using hd_dropWhile by blast
  show ?thesis
  proof (intro conjI exI [of _ "dropWhile ?p stack"])
    show "getMatchingTopBoxes [] = []" by simp
    show "stack = getMatchingTopBoxes stack @ dropWhile ?p stack" by (rule split)
    show "\<forall>box \<in> set (getMatchingTopBoxes stack). ?p box" by (rule same)
    show "dropWhile ?p stack \<noteq> [] \<longrightarrow> kind (hd (dropWhile ?p stack)) \<noteq> kind (hd stack)"
      by (rule stop)
    show "getMatchingTopBoxes stack = takeWhile ?p stack"
      by (rule getMatchingTopBoxes_takeWhile)
  qed
qed

subsection \<open>Facts about the completion check\<close>

lemma eachStackValid_iff: "eachStackValid board \<longleftrightarrow> singleKindStacks board"
  by (auto simp: eachStackValid_def singleKindStacks_def list_all_iff)

lemma map_of_fold_init:
  "map_of (fold (\<lambda>c catMap. AList.update (cat_id c) 0 catMap) cats m) k =
     (if k \<in> cat_id ` set cats then Some 0 else map_of m k)"
  by (induction cats arbitrary: m) (auto simp: update_conv')

lemma map_of_initCatMap:
  "map_of (initCatMap cats) k = (if k \<in> cat_id ` set cats then Some 0 else None)"
  by (simp add: initCatMap_def map_of_fold_init)

lemma distinct_fold_init:
  "distinct (map fst m) \<Longrightarrow>
   distinct (map fst (fold (\<lambda>c catMap. AList.update (cat_id c) (0::int) catMap) cats m))"
  by (induction cats arbitrary: m) (simp_all add: distinct_update)

lemma distinct_initCatMap: "distinct (map fst (initCatMap cats))"
  by (simp add: initCatMap_def distinct_fold_init)

lemma distinct_countStack:
  "distinct (map fst m) \<Longrightarrow> distinct (map fst (countStack stack m))"
  by (simp add: countStack_def Let_def distinct_update split: option.splits)

lemma distinct_fold_countStack:
  "distinct (map fst m) \<Longrightarrow> distinct (map fst (fold countStack board m))"
  by (induction board arbitrary: m) (simp_all add: distinct_countStack)

lemma map_of_countStack:
  "map_of (countStack stack m) k =
     (case map_of m k of None \<Rightarrow> None
      | Some v \<Rightarrow> Some (if stack \<noteq> [] \<and> kind (hd stack) = k
                      then (if v = int MAX_STACK_SIZE then - 1 else int (length stack)) else v))"
  by (auto simp: countStack_def Let_def update_conv' split: option.splits)

lemma map_of_fold_countStack:
  "map_of (fold countStack board m) k =
     (case map_of m k of None \<Rightarrow> None | Some v \<Rightarrow> Some (tally k board v))"
proof (induction board arbitrary: m)
  case Nil
  then show ?case by (simp split: option.splits)
next
  case (Cons stack rest)
  show ?case
    by (cases "map_of m k") (simp_all add: Cons.IH map_of_countStack)
qed

lemma allcatsComplete_iff:
  assumes "distinct (map fst m)"
  shows "allcatsComplete m \<longleftrightarrow> (\<forall>k v. map_of m k = Some v \<longrightarrow> v = int MAX_STACK_SIZE)"
  using assms by (auto simp: allcatsComplete_def list_all_iff)

lemma allcatsComplete_counted:
  "allcatsComplete (fold countStack board (initCatMap cats)) \<longleftrightarrow>
     (\<forall>c \<in> set cats. tally (cat_id c) board 0 = int MAX_STACK_SIZE)"
  by (auto simp: allcatsComplete_iff distinct_fold_countStack distinct_initCatMap
      map_of_fold_countStack map_of_initCatMap split: if_splits)

lemma tally_snoc:
  "tally k (board @ [stack]) v =
     (if stack \<noteq> [] \<and> kind (hd stack) = k
      then (if tally k board v = int MAX_STACK_SIZE then - 1 else int (length stack))
      else tally k board v)"
  by (induction board arbitrary: v) simp_all

lemma countKind_headed:
  "stack \<noteq> [] \<Longrightarrow> kind (hd stack) = k \<Longrightarrow> 0 < countKind k stack"
  by (cases stack) (simp_all add: countKind_def)

lemma tally_no_boxes:
  "kindTotal k board = 0 \<Longrightarrow> tally k board v = v"
proof (induction board arbitrary: v)
  case Nil
  then show ?case by simp
next
  case (Cons stack rest)
  then have "countKind k stack = 0" and "kindTotal k rest = 0"
    by (simp_all add: kindTotal_def)
  with Cons.IH countKind_headed [of stack k] show ?case by auto
qed

lemma filter_counts_none:
  "kindTotal k board = 0 \<Longrightarrow> filter (\<lambda>n. n > 0) (map (countKind k) board) = []"
  by (induction board) (simp_all add: kindTotal_def)

lemma countKind_single:
  assumes "\<forall>b \<in> set stack. kind b = kind (hd stack)"
  shows "countKind k stack = (if stack \<noteq> [] \<and> kind (hd stack) = k then length stack else 0)"
proof -
  have "filter (\<lambda>b. kind b = k) stack = (if kind (hd stack) = k then stack else [])"
    using assms by (auto simp: filter_empty_conv intro: filter_True)
  then show ?thesis by (auto simp: countKind_def)
qed

lemma tally_together:
  assumes "singleKindStacks board" and "kindTotal k board \<le> MAX_STACK_SIZE"
  shows "tally k board 0 = int MAX_STACK_SIZE \<longleftrightarrow> kindTogether k board"
  using assms
proof (induction board rule: rev_induct)
  case Nil
  then show ?case by (simp add: kindTogether_def MAX_STACK_SIZE_def)
next
  case (snoc stack board)
  have single: "singleKindStacks board" and one: "\<forall>b \<in> set stack. kind b = kind (hd stack)"
    using snoc.prems(1) by (auto simp: singleKindStacks_def)
  have total: "kindTotal k board + countKind k stack \<le> MAX_STACK_SIZE"
    using snoc.prems(2) by (simp add: kindTotal_def)
  then have IH: "tally k board 0 = int MAX_STACK_SIZE \<longleftrightarrow> kindTogether k board"
    using snoc.IH single by simp
  note ck = countKind_single [OF one, of k]
  show ?case
  proof (cases "stack \<noteq> [] \<and> kind (hd stack) = k")
    case False
    then have "countKind k stack = 0" using ck by auto
    with False IH show ?thesis
      by (auto simp: tally_snoc kindTogether_def)
  next
    case True
    then have len: "countKind k stack = length stack" and pos: "0 < length stack"
      using ck by auto
    show ?thesis
    proof (cases "length stack = MAX_STACK_SIZE")
      case True
      with total len have zero: "kindTotal k board = 0" by simp
      have "tally k board 0 = 0" by (rule tally_no_boxes [OF zero])
      with True \<open>stack \<noteq> [] \<and> kind (hd stack) = k\<close> len filter_counts_none [OF zero]
      show ?thesis
        by (simp add: tally_snoc kindTogether_def MAX_STACK_SIZE_def)
    next
      case False
      with \<open>stack \<noteq> [] \<and> kind (hd stack) = k\<close> len pos show ?thesis
        by (auto simp: tally_snoc kindTogether_def MAX_STACK_SIZE_def)
    qed
  qed
qed


text \<open>
  Claim C3. On a board that holds at most four boxes of each cat in play, the verdict of
  \<open>checkCompletion\<close> is true exactly when every non-empty stack shows a single cat and,
  for every cat in play, its boxes sit in exactly one stack, four of them. Two stacks of
  the same cat (say two and two) are not complete.
\<close>

theorem checkCompletion_iff_completeBoard:
  assumes "\<forall>c \<in> set cats. kindTotal (cat_id c) board \<le> MAX_STACK_SIZE"
  shows "fst (checkCompletion cats board s) \<longleftrightarrow> completeBoard cats board"
proof (cases "singleKindStacks board")
  case False
  then show ?thesis
    by (simp add: checkCompletion_def completeBoard_def eachStackValid_iff)
next
  case True
  with assms have "\<forall>c \<in> set cats.
      tally (cat_id c) board 0 = int MAX_STACK_SIZE \<longleftrightarrow> kindTogether (cat_id c) board"
    using tally_together by blast
  with True show ?thesis
    by (simp add: checkCompletion_def completeBoard_def eachStackValid_iff Let_def
        allcatsComplete_counted)
qed

subsection \<open>Facts about the handlers\<close>

lemma checkCompletion_keeps:
  "stacks (snd (checkCompletion cats board s)) = stacks s"
  "moves (snd (checkCompletion cats board s)) = moves s"
  "moveCount (snd (checkCompletion cats board s)) = moveCount s"
  "timers (snd (checkCompletion cats board s)) = timers s"
  "isAnimating (snd (checkCompletion cats board s)) = isAnimating s"
  "isLost (snd (checkCompletion cats board s)) = isLost s"
  "selectedStackIndex (snd (checkCompletion cats board s)) = selectedStackIndex s"
  "hasOnComplete (snd (checkCompletion cats board s)) = hasOnComplete s"
  "activeCats (snd (checkCompletion cats board s)) = activeCats s"
  "animatingBoxes (snd (checkCompletion cats board s)) = animatingBoxes s"
  by (simp_all add: checkCompletion_def Let_def)

lemma checkCompletion_verdict:
  "isComplete (snd (checkCompletion cats board s)) = fst (checkCompletion cats board s)"
  by (simp add: checkCompletion_def Let_def)

lemma checkCompletion_calls:
  "onCompleteCalls (snd (checkCompletion cats board s)) =
     onCompleteCalls s +
       (if fst (checkCompletion cats board s) \<and> hasOnComplete s then 1 else 0)"
  by (simp add: checkCompletion_def Let_def)

lemma animationTimeout_idle: "timers s = [] \<Longrightarrow> animationTimeout s = Inr s"
  by (simp add: animationTimeout_def)

lemma animationTimeout_fires:
  assumes "timers s = t # pending"
    and "timer_from t < length (timer_stacks t)"
    and "timer_to t < length (timer_stacks t)"
  defines "g \<equiv> getMatchingTopBoxes (timer_stacks t ! timer_from t)"
  defines "b1 \<equiv> (timer_stacks t)[timer_from t := drop (length g) (timer_stacks t ! timer_from t)]"
  defines "b2 \<equiv> b1[timer_to t := g @ b1 ! timer_to t]"
  defines "s1 \<equiv> s\<lparr>stacks := b2, animatingBoxes := [], isAnimating := False, timers := pending\<rparr>"
  defines "s2 \<equiv> snd (checkCompletion (timer_activeCats t) b2 s1)"
  shows "animationTimeout s =
     Inr (if \<not> fst (checkCompletion (timer_activeCats t) b2 s1) \<and> \<not> checkForValidMoves b2
          then s2\<lparr>isLost := True\<rparr> else s2)"
  using assms(1-3) unfolding g_def b1_def b2_def s1_def s2_def
  by (simp add: animationTimeout_def Let_def case_prod_beta)

lemma handleStackClick_selected:
  assumes "\<not> isComplete s" and "\<not> isLost s" and "\<not> isAnimating s"
    and "selectedStackIndex s = Some fromIdx"
    and "fromIdx < length (stacks s)" and "toIdx < length (stacks s)"
    and "fromIdx \<noteq> toIdx" and "stacks s ! fromIdx \<noteq> []"
  shows "handleStackClick s toIdx =
     Inr (if legalMove (getMatchingTopBoxes (stacks s ! fromIdx)) (stacks s ! toIdx)
          then s\<lparr>moveCount := moveCount s + 1,
                 moves := moves s @
                   [\<lparr>move_from = fromIdx, move_to = toIdx,
                     move_count = length (getMatchingTopBoxes (stacks s ! fromIdx))\<rparr>],
                 isAnimating := True,
                 animatingBoxes :=
                   map (\<lambda>i. \<lparr>anim_id = i, fromStack = fromIdx, toStack = toIdx\<rparr>)
                     (map box_id (getMatchingTopBoxes (stacks s ! fromIdx))),
                 timers := timers s @
                   [\<lparr>timer_stacks = stacks s, timer_activeCats = activeCats s,
                     timer_from = fromIdx, timer_to = toIdx\<rparr>],
                 selectedStackIndex := None\<rparr>
          else s\<lparr>selectedStackIndex := None\<rparr>)"
  using assms
  by (simp add: handleStackClick_def legalMove_def animateBoxMovement_def Let_def
      getMatchingTopBoxes_Nil_iff)



text \<open>
  Claim C4. With a non-empty source stack selected and another stack clicked, the click
  is accepted exactly when the destination has room for the whole group and is empty or
  shows the group's cat on top. The accepted click records the move and starts its
  timer; the rejected click changes nothing but the selection. In both cases the
  selection is cleared and the board is not touched by the click itself.
\<close>

theorem handleStackClick_accepts_iff_legal:
  assumes "\<not> isComplete s" and "\<not> isLost s" and "\<not> isAnimating s"
    and "selectedStackIndex s = Some fromIdx"
    and "fromIdx < length (stacks s)" and "toIdx < length (stacks s)"
    and "fromIdx \<noteq> toIdx" and "stacks s ! fromIdx \<noteq> []"
  shows "\<exists>s'. handleStackClick s toIdx = Inr s' \<and>
           selectedStackIndex s' = None \<and> stacks s' = stacks s \<and>
           (if legalMove (getMatchingTopBoxes (stacks s ! fromIdx)) (stacks s ! toIdx)
            then moves s' = moves s @
                   [\<lparr>move_from = fromIdx, move_to = toIdx,
                     move_count = length (getMatchingTopBoxes (stacks s ! fromIdx))\<rparr>] \<and>
                 moveCount s' = moveCount s + 1 \<and> isAnimating s' \<and>
                 timers s' = timers s @
                   [\<lparr>timer_stacks = stacks s, timer_activeCats = activeCats s,
                     timer_from = fromIdx, timer_to = toIdx\<rparr>]
            else s' = s\<lparr>selectedStackIndex := None\<rparr>)"
  using handleStackClick_selected [OF assms] by simp

lemma accepted_move_facts:
  assumes "\<not> isComplete s" and "\<not> isLost s" and "\<not> isAnimating s" and "timers s = []"
    and "selectedStackIndex s = Some fromIdx"
    and "fromIdx < length (stacks s)" and "toIdx < length (stacks s)"
    and "fromIdx \<noteq> toIdx" and "stacks s ! fromIdx \<noteq> []"
    and "legalMove (getMatchingTopBoxes (stacks s ! fromIdx)) (stacks s ! toIdx)"
  defines "grp \<equiv> getMatchingTopBoxes (stacks s ! fromIdx)"
  defines "s' \<equiv> run s [Click toIdx, Timeout]"
  shows "stacks s' = (stacks s)[fromIdx := drop (length grp) (stacks s ! fromIdx),
                                toIdx := grp @ stacks s ! toIdx]"
    and "stacks s' ! fromIdx = drop (length grp) (stacks s ! fromIdx)"
    and "stacks s' ! toIdx = grp @ stacks s ! toIdx"
    and "grp @ stacks s' ! fromIdx = stacks s ! fromIdx"
    and "moves s' = moves s @ [\<lparr>move_from = fromIdx, move_to = toIdx, move_count = length grp\<rparr>]"
    and "moveCount s' = moveCount s + 1"
    and "animatingBoxes (step s (Click toIdx)) =
           map (\<lambda>b. \<lparr>anim_id = box_id b, fromStack = fromIdx, toStack = toIdx\<rparr>) grp"
proof -
  let ?t = "\<lparr>timer_stacks = stacks s, timer_activeCats = activeCats s,
             timer_from = fromIdx, timer_to = toIdx\<rparr>"
  let ?s1 = "s\<lparr>moveCount := moveCount s + 1,
                moves := moves s @
                  [\<lparr>move_from = fromIdx, move_to = toIdx, move_count = length grp\<rparr>],
                isAnimating := True,
                animatingBoxes :=
                  map (\<lambda>i. \<lparr>anim_id = i, fromStack = fromIdx, toStack = toIdx\<rparr>)
                    (map box_id grp),
                timers := timers s @ [?t],
                selectedStackIndex := None\<rparr>"
  have click: "step s (Click toIdx) = ?s1"
    using handleStackClick_selected [OF assms(1-3,5-9)] assms(10)
    by (simp add: grp_def)
  have pending: "timers ?s1 = ?t # []"
    using assms(4) by simp
  have fire: "\<exists>s2. step ?s1 Timeout = s2 \<and>
      stacks s2 = (stacks s)[fromIdx := drop (length grp) (stacks s ! fromIdx),
                             toIdx := grp @ stacks s ! toIdx] \<and>
      moves s2 = moves ?s1 \<and> moveCount s2 = moveCount ?s1"
    using animationTimeout_fires [OF pending] assms(6-8)
    by (simp add: grp_def checkCompletion_keeps)
  from click fire show
    "stacks s' = (stacks s)[fromIdx := drop (length grp) (stacks s ! fromIdx),
                            toIdx := grp @ stacks s ! toIdx]"
    by (simp add: s'_def)
  then show "stacks s' ! fromIdx = drop (length grp) (stacks s ! fromIdx)"
    and "stacks s' ! toIdx = grp @ stacks s ! toIdx"
    using assms(6-8) by simp_all
  then show "grp @ stacks s' ! fromIdx = stacks s ! fromIdx"
    by (simp add: grp_def getMatchingTopBoxes_append_drop)
  from click fire show
    "moves s' = moves s @ [\<lparr>move_from = fromIdx, move_to = toIdx, move_count = length grp\<rparr>]"
    and "moveCount s' = moveCount s + 1"
    by (simp_all add: s'_def)
  from click show "animatingBoxes (step s (Click toIdx)) =
           map (\<lambda>b. \<lparr>anim_id = box_id b, fromStack = fromIdx, toStack = toIdx\<rparr>) grp"
    by (simp add: comp_def)
qed

text \<open>
  Claim C5. An accepted move, once its timer has run, has taken the matching group off
  the top of the source stack and put it, in the same order, on top of the destination;
  the history has one more record with the two indices and the size of the group, the
  counter is one higher, and the boxes reported as moving are those of the group. With a
  group of two moved onto an empty stack, the destination is that group and the source
  is two boxes shorter.
\<close>

theorem accepted_move_effect:
  assumes "\<not> isComplete s" and "\<not> isLost s" and "\<not> isAnimating s" and "timers s = []"
    and "selectedStackIndex s = Some fromIdx"
    and "fromIdx < length (stacks s)" and "toIdx < length (stacks s)"
    and "fromIdx \<noteq> toIdx" and "stacks s ! fromIdx \<noteq> []"
    and "legalMove (getMatchingTopBoxes (stacks s ! fromIdx)) (stacks s ! toIdx)"
  shows "let grp = getMatchingTopBoxes (stacks s ! fromIdx);
             s' = run s [Click toIdx, Timeout]
         in stacks s' = (stacks s)[fromIdx := drop (length grp) (stacks s ! fromIdx),
                                   toIdx := grp @ stacks s ! toIdx] \<and>
            stacks s' ! fromIdx = drop (length grp) (stacks s ! fromIdx) \<and>
            grp @ stacks s' ! fromIdx = stacks s ! fromIdx \<and>
            stacks s' ! toIdx = grp @ stacks s ! toIdx \<and>
            moves s' = moves s @
              [\<lparr>move_from = fromIdx, move_to = toIdx, move_count = length grp\<rparr>] \<and>
            moveCount s' = moveCount s + 1 \<and>
            animatingBoxes (step s (Click toIdx)) =
              map (\<lambda>b. \<lparr>anim_id = box_id b, fromStack = fromIdx, toStack = toIdx\<rparr>) grp"
  unfolding Let_def
  by (intro conjI accepted_move_facts [OF assms])

text \<open>An accepted move keeps every stack within four boxes.\<close>

lemma accepted_move_capacity:
  assumes "\<not> isComplete s" and "\<not> isLost s" and "\<not> isAnimating s" and "timers s = []"
    and "selectedStackIndex s = Some fromIdx"
    and "fromIdx < length (stacks s)" and "toIdx < length (stacks s)"
    and "fromIdx \<noteq> toIdx" and "stacks s ! fromIdx \<noteq> []"
    and "legalMove (getMatchingTopBoxes (stacks s ! fromIdx)) (stacks s ! toIdx)"
    and cap: "\<forall>stack \<in> set (stacks s). length stack \<le> MAX_STACK_SIZE"
  shows "\<forall>stack \<in> set (stacks (run s [Click toIdx, Timeout])). length stack \<le> MAX_STACK_SIZE"
proof -
  let ?grp = "getMatchingTopBoxes (stacks s ! fromIdx)"
  have eq: "stacks (run s [Click toIdx, Timeout]) =
      (stacks s)[fromIdx := drop (length ?grp) (stacks s ! fromIdx),
                 toIdx := ?grp @ stacks s ! toIdx]"
    by (rule accepted_move_facts(1) [OF assms(1-10)])
  have src: "length (drop (length ?grp) (stacks s ! fromIdx)) \<le> MAX_STACK_SIZE"
    using cap assms(6) by (simp add: le_diff_conv trans_le_add1)
  have dst: "length (?grp @ stacks s ! toIdx) \<le> MAX_STACK_SIZE"
    using assms(10) by (simp add: legalMove_def add.commute)
  show ?thesis
    unfolding eq using cap src dst
    by (auto dest!: set_update_subset_insert [THEN subsetD])
qed

subsection \<open>Facts about the search for a valid move\<close>

text \<open>
  Claim C6. \<open>checkForValidMoves\<close> is true on every board with an empty stack; on a
  board without one it is true exactly when some non-empty source stack and some other
  stack satisfy the legality condition for the source's matching group.
\<close>

theorem checkForValidMoves_iff:
  "checkForValidMoves board =
     (if \<exists>stack \<in> set board. stack = [] then True
      else \<exists>fromIdx < length board. \<exists>toIdx < length board.
             fromIdx \<noteq> toIdx \<and> board ! fromIdx \<noteq> [] \<and>
             legalMove (getMatchingTopBoxes (board ! fromIdx)) (board ! toIdx))"
proof (cases "\<exists>stack \<in> set board. stack = []")
  case True
  then show ?thesis by (auto simp: checkForValidMoves_def list_ex_iff)
next
  case False
  have src: "sourceHasMove board fromIdx \<longleftrightarrow>
      (board ! fromIdx \<noteq> [] \<and> (\<exists>toIdx < length board. fromIdx \<noteq> toIdx \<and>
         legalMove (getMatchingTopBoxes (board ! fromIdx)) (board ! toIdx)))" for fromIdx
    by (auto simp: sourceHasMove_def destinationAccepts_def legalMove_def Let_def list_ex_iff)
  from False show ?thesis
    by (auto simp: checkForValidMoves_def list_ex_iff src)
qed

subsection \<open>Sessions stay well-formed\<close>

lemma sessionInvariant_startGame:
  "\<not> isAnimating s \<Longrightarrow> sessionInvariant s \<Longrightarrow> sessionInvariant (startGame newStacks gameCats s)"
  by (auto simp: sessionInvariant_def startGame_def storeNewGame_def)

lemma sessionInvariant_newSession: "sessionInvariant (newSession board cats withOnComplete)"
  by (simp add: sessionInvariant_def newSession_def startGame_def storeNewGame_def
      mountedSession_def)

lemma sessionInvariant_idle: "sessionInvariant s \<Longrightarrow> \<not> isAnimating s \<Longrightarrow> timers s = []"
  by (cases "timers s") (auto simp: sessionInvariant_def)

lemma sessionInvariant_click:
  assumes "sessionInvariant s"
  shows "sessionInvariant (step s (Click i))"
proof (cases "isComplete s \<or> isLost s \<or> isAnimating s")
  case True
  with assms show ?thesis by (auto simp: handleStackClick_def)
next
  case False
  then have idle: "timers s = []" using assms sessionInvariant_idle by blast
  with assms False show ?thesis
    by (auto simp: handleStackClick_def sessionInvariant_def animateBoxMovement_def Let_def
        split: option.splits)
qed

lemma undoMove_carried_out:
  assumes "moves s \<noteq> []" and "\<not> isComplete s" and "\<not> isAnimating s"
    and "move_to (last (moves s)) < length (stacks s)"
  shows "undoMove s =
     Inr (s\<lparr>isAnimating := True,
            animatingBoxes :=
              map (\<lambda>i. \<lparr>anim_id = i, fromStack = move_to (last (moves s)),
                         toStack = move_from (last (moves s))\<rparr>)
                (map box_id (take (move_count (last (moves s)))
                   (stacks s ! move_to (last (moves s))))),
            timers := timers s @
              [\<lparr>timer_stacks = stacks s, timer_activeCats = activeCats s,
                timer_from = move_to (last (moves s)),
                timer_to = move_from (last (moves s))\<rparr>],
            moveCount := moveCount s - 1,
            moves := butlast (moves s),
            isComplete := False,
            isLost := False\<rparr>)"
  using assms by (simp add: undoMove_def animateBoxMovement_def Let_def)

lemma sessionInvariant_undo:
  assumes "sessionInvariant s"
  shows "sessionInvariant (step s Undo)"
proof (cases "length (moves s) = 0 \<or> isComplete s \<or> isAnimating s")
  case True
  with assms show ?thesis by (auto simp: undoMove_def)
next
  case False
  then have idle: "timers s = []" using assms sessionInvariant_idle by blast
  from False have ne: "moves s \<noteq> []" and nc: "\<not> isComplete s" and na: "\<not> isAnimating s"
    by simp_all
  from ne have "last (moves s) \<in> set (moves s)" by simp
  with assms have rng: "move_from (last (moves s)) < length (stacks s)"
      "move_to (last (moves s)) < length (stacks s)"
    by (simp_all add: sessionInvariant_def)
  from assms have cnt: "moveCount s = int (length (moves s))"
    and old: "\<forall>m \<in> set (moves s).
        move_from m < length (stacks s) \<and> move_to m < length (stacks s)"
    by (simp_all add: sessionInvariant_def)
  from ne have len: "int (length (butlast (moves s))) = int (length (moves s)) - 1"
    by (cases "moves s") simp_all
  from old have kept: "\<forall>m \<in> set (butlast (moves s)).
        move_from m < length (stacks s) \<and> move_to m < length (stacks s)"
    by (blast dest: in_set_butlastD)
  show ?thesis
    unfolding step.simps undoMove_carried_out [OF ne nc na rng(2)] sum.case
    unfolding sessionInvariant_def
    using cnt len kept rng idle by simp
qed

lemma sessionInvariant_timeout:
  assumes "sessionInvariant s"
  shows "sessionInvariant (step s Timeout)"
proof (cases "timers s")
  case Nil
  with assms show ?thesis by (simp add: animationTimeout_idle)
next
  case (Cons t pending)
  with assms have one: "pending = []" and len: "length (timer_stacks t) = length (stacks s)"
    and rng: "timer_from t < length (timer_stacks t)" "timer_to t < length (timer_stacks t)"
    by (auto simp: sessionInvariant_def)
  from assms show ?thesis
    using animationTimeout_fires [OF Cons rng] one len
    by (auto simp: sessionInvariant_def checkCompletion_keeps)
qed

lemma sessionInvariant_step: "sessionInvariant s \<Longrightarrow> sessionInvariant (step s e)"
proof (cases e)
  case (NewGame newStacks gameCats)
  assume "sessionInvariant s"
  then show ?thesis using NewGame by (simp add: sessionInvariant_startGame)
qed (simp_all only: sessionInvariant_click sessionInvariant_undo sessionInvariant_timeout)

lemma sessionInvariant_run: "sessionInvariant s \<Longrightarrow> sessionInvariant (run s es)"
  by (induction es arbitrary: s) (simp_all add: sessionInvariant_step)

lemma undo_carried_out:
  assumes "sessionInvariant s" and "moves s \<noteq> []" and "\<not> isComplete s" and "\<not> isAnimating s"
  shows "moveCount (step s Undo) = moveCount s - 1 \<and> moves (step s Undo) = butlast (moves s)"
proof -
  from assms(2) have "last (moves s) \<in> set (moves s)" by simp
  with assms(1) have "move_to (last (moves s)) < length (stacks s)"
    by (auto simp: sessionInvariant_def)
  with assms(2-4) show ?thesis
    by (simp add: undoMove_def animateBoxMovement_def Let_def)
qed


text \<open>
  Claim C10. In every session, after any sequence of clicks, undos, timer callbacks and
  new games, the move counter is the length of the history and is not negative; an undo
  that is carried out takes exactly one off the counter and drops the last record.
\<close>

theorem moveCount_is_history_length:
  "let s = run (newSession board cats withOnComplete) events in
     moveCount s = int (length (moves s)) \<and> 0 \<le> moveCount s \<and>
     (moves s \<noteq> [] \<and> \<not> isComplete s \<and> \<not> isAnimating s \<longrightarrow>
        moveCount (step s Undo) = moveCount s - 1 \<and>
        moves (step s Undo) = butlast (moves s) \<and> 0 \<le> moveCount (step s Undo))"
proof -
  let ?s = "run (newSession board cats withOnComplete) events"
  have inv: "sessionInvariant ?s"
    by (rule sessionInvariant_run [OF sessionInvariant_newSession])
  then have a: "moveCount ?s = int (length (moves ?s))"
    by (simp add: sessionInvariant_def)
  have "sessionInvariant (step ?s Undo)" by (rule sessionInvariant_step [OF inv])
  then have b: "0 \<le> moveCount (step ?s Undo)"
    by (simp add: sessionInvariant_def)
  from a b undo_carried_out [OF inv] show ?thesis
    by (simp add: Let_def)
qed


subsection \<open>The completion notification\<close>

lemma step_onComplete:
  assumes "sessionInvariant s"
  shows "onCompleteCalls (step s e) =
     onCompleteCalls s +
       (if hasOnComplete s \<and> \<not> isComplete s \<and> isComplete (step s e) then 1 else 0)"
proof (cases e)
  case (Click i)
  then show ?thesis
    by (auto simp: handleStackClick_def animateBoxMovement_def Let_def split: option.splits)
next
  case Undo
  then show ?thesis
    by (auto simp: undoMove_def animateBoxMovement_def Let_def)
next
  case (NewGame newStacks gameCats)
  then show ?thesis by (simp add: startGame_def storeNewGame_def)
next
  case Timeout
  show ?thesis
  proof (cases "timers s")
    case Nil
    with Timeout show ?thesis by (simp add: animationTimeout_idle)
  next
    case (Cons t pending)
    with assms have nc: "\<not> isComplete s" and len: "length (timer_stacks t) = length (stacks s)"
      and rng: "timer_from t < length (timer_stacks t)" "timer_to t < length (timer_stacks t)"
      by (auto simp: sessionInvariant_def)
    from Timeout nc show ?thesis
      using animationTimeout_fires [OF Cons rng]
      by (auto simp: checkCompletion_keeps checkCompletion_calls checkCompletion_verdict)
  qed
qed


text \<open>
  Claim C9, as the component has it. \<open>checkCompletion\<close> itself has no memory of an
  earlier notification. In a session, each step calls \<open>onComplete\<close> once if it takes
  the session from not complete to complete and not at all otherwise: completion is
  only evaluated by the timer of a move or an undo, and neither is accepted while the
  session is complete.
\<close>

theorem onComplete_once_per_session_completion:
  "let s = run (newSession board cats withOnComplete) events in
     onCompleteCalls (step s e) =
       onCompleteCalls s +
         (if hasOnComplete s \<and> \<not> isComplete s \<and> isComplete (step s e) then 1 else 0)"
  using step_onComplete [OF sessionInvariant_run [OF sessionInvariant_newSession]]
  by (simp add: Let_def)

subsection \<open>Facts about random draws\<close>

lemma drawsInRange_stl: "drawsInRange r \<Longrightarrow> drawsInRange (stl r)"
  by (auto simp: drawsInRange_def dest: stl_sset)

lemma drawsInRange_sdrop: "drawsInRange r \<Longrightarrow> drawsInRange (sdrop n r)"
  by (induction n arbitrary: r) (simp_all add: drawsInRange_stl)

lemma drawsInRange_shd: "drawsInRange r \<Longrightarrow> 0 \<le> shd r \<and> shd r < 1"
  by (simp add: drawsInRange_def shd_sset)

lemma floor_draw_index:
  assumes "0 \<le> x" and "x < 1" and "0 < n"
  shows "0 \<le> \<lfloor>x * real n\<rfloor>" and "nat \<lfloor>x * real n\<rfloor> < n"
proof -
  from assms show "0 \<le> \<lfloor>x * real n\<rfloor>" by simp
  have "x * real n < real n" using assms by simp
  then have "\<lfloor>x * real n\<rfloor> < int n" by (simp add: floor_less_iff)
  then show "nat \<lfloor>x * real n\<rfloor> < n" using assms by linarith
qed

lemma boxAt_draw:
  assumes "drawsInRange r" and "stack \<noteq> []"
  shows "\<exists>k < length stack. boxAt stack \<lfloor>shd r * real (length stack)\<rfloor> = Some (stack ! k) \<and>
           k = nat \<lfloor>shd r * real (length stack)\<rfloor>"
  using floor_draw_index [of "shd r" "length stack"] drawsInRange_shd [OF assms(1)] assms(2)
  by (simp add: boxAt_def)

lemma otherStackIndex_range:
  assumes "0 \<le> x" and "x < 1" and "0 < filledStacks"
  shows "0 \<le> otherStackIndex i filledStacks x"
    and "nat (otherStackIndex i filledStacks x) < filledStacks"
proof -
  have nn: "0 \<le> \<lfloor>x * real_of_int (int filledStacks - 1)\<rfloor>"
    using assms by simp
  then have pos: "0 \<le> int i + 1 + \<lfloor>x * real_of_int (int filledStacks - 1)\<rfloor>" by simp
  have eq: "otherStackIndex i filledStacks x =
      (int i + 1 + \<lfloor>x * real_of_int (int filledStacks - 1)\<rfloor>) mod int filledStacks"
    using pos assms(3)
    by (simp add: otherStackIndex_def signed_modulo_int_def sgn_if abs_mod_less zmod_trivial_iff)
  show "0 \<le> otherStackIndex i filledStacks x"
    unfolding eq using assms(3) by simp
  have "otherStackIndex i filledStacks x < int filledStacks"
    unfolding eq using assms(3) by simp
  then show "nat (otherStackIndex i filledStacks x) < filledStacks"
    using \<open>0 \<le> otherStackIndex i filledStacks x\<close> by linarith
qed

subsection \<open>Facts about the phases of the generator\<close>

lemma set_removeById: "set (removeById i boxes) \<subseteq> set boxes"
  by (induction boxes) auto

lemma boxesById_subset: "boxesById boxes \<Longrightarrow> set boxes' \<subseteq> set boxes \<Longrightarrow> boxesById boxes'"
  unfolding boxesById_def by blast

lemma mset_removeById:
  "boxesById boxes \<Longrightarrow> b \<in> set boxes \<Longrightarrow>
   mset (removeById (box_id b) boxes) = mset boxes - {#b#}"
proof (induction boxes)
  case Nil
  then show ?case by simp
next
  case (Cons x boxes)
  show ?case
  proof (cases "box_id x = box_id b")
    case True
    with Cons.prems have "x = b" by (auto simp: boxesById_def)
    with True show ?thesis by simp
  next
    case False
    with Cons.prems have "b \<in> set boxes" by auto
    moreover have "boxesById boxes"
      using Cons.prems(1) by (rule boxesById_subset) auto
    ultimately have "mset (removeById (box_id b) boxes) = mset boxes - {#b#}"
      by (rule Cons.IH [rotated])
    with False \<open>b \<in> set boxes\<close> show ?thesis by simp
  qed
qed

lemma mset_fold_removeById:
  "boxesById remaining \<Longrightarrow> mset selected \<subseteq># mset remaining \<Longrightarrow>
   mset (fold (\<lambda>b rest. removeById (box_id b) rest) selected remaining) =
     mset remaining - mset selected \<and>
   set (fold (\<lambda>b rest. removeById (box_id b) rest) selected remaining) \<subseteq> set remaining"
proof (induction selected arbitrary: remaining)
  case Nil
  then show ?case by simp
next
  case (Cons b selected)
  from Cons.prems(2) have in_rem: "b \<in> set remaining"
    by (metis insert_subset_eq_iff mset.simps(2) set_mset_mset)
  have step: "mset (removeById (box_id b) remaining) = mset remaining - {#b#}"
    by (rule mset_removeById [OF Cons.prems(1) in_rem])
  have sub: "mset selected \<subseteq># mset (removeById (box_id b) remaining)"
    unfolding step using Cons.prems(2)
    by (metis add_mset_diff_bothsides diff_empty mset.simps(2) subset_mset.diff_add_assoc2
        insert_subset_eq_iff mset_subset_eq_add_mset_cancel insert_DiffM in_rem set_mset_mset)
  have byid: "boxesById (removeById (box_id b) remaining)"
    by (rule boxesById_subset [OF Cons.prems(1) set_removeById])
  have arith: "mset remaining - {#b#} - mset selected = mset remaining - mset (b # selected)"
    by (simp only: diff_diff_add_mset mset.simps add_mset_add_single [symmetric]
        union_mset_add_mset_left empty_neutral)
  from Cons.IH [OF byid sub] step set_removeById [of "box_id b" remaining] arith
  show ?case by auto
qed

lemma mset_take_subset: "mset (take n xs) \<subseteq># mset xs"
  by (metis append_take_drop_id mset_append mset_subset_eq_add_left)

lemma preMatchLoop_keeps:
  "drawsInRange r \<Longrightarrow> boxesById remainingBoxes \<Longrightarrow>
   \<exists>organized remaining m.
      preMatchLoop n organizedBoxes remainingBoxes r = Inr (organized, remaining, sdrop m r) \<and>
      mset organized + mset remaining = mset organizedBoxes + mset remainingBoxes"
proof (induction n arbitrary: organizedBoxes remainingBoxes r)
  case 0
  have "preMatchLoop 0 organizedBoxes remainingBoxes r =
      Inr (organizedBoxes, remainingBoxes, sdrop 0 r)" by simp
  then show ?case by blast
next
  case (Suc n)
  show ?case
  proof (cases "remainingBoxes = []")
    case True
    then have "preMatchLoop (Suc n) organizedBoxes remainingBoxes r =
        Inr (organizedBoxes, remainingBoxes, sdrop 0 r)" by simp
    then show ?thesis by blast
  next
    case False
    from boxAt_draw [OF Suc.prems(1) False] obtain k where
      k: "k < length remainingBoxes"
        "boxAt remainingBoxes \<lfloor>shd r * real (length remainingBoxes)\<rfloor> = Some (remainingBoxes ! k)"
      by blast
    define selected where
      "selected = take (min 3 (length (filter (\<lambda>b. kind b = kind (remainingBoxes ! k)) remainingBoxes)))
         (filter (\<lambda>b. kind b = kind (remainingBoxes ! k)) remainingBoxes)"
    define rest where
      "rest = fold (\<lambda>b remaining. removeById (box_id b) remaining) selected remainingBoxes"
    have sub: "mset selected \<subseteq># mset remainingBoxes"
      unfolding selected_def
      by (rule subset_mset.order_trans [OF mset_take_subset]) simp
    from mset_fold_removeById [OF Suc.prems(2) sub]
    have rest: "mset rest = mset remainingBoxes - mset selected" "set rest \<subseteq> set remainingBoxes"
      by (simp_all add: rest_def)
    have byid: "boxesById rest"
      by (rule boxesById_subset [OF Suc.prems(2) rest(2)])
    from Suc.IH [OF drawsInRange_stl [OF Suc.prems(1)] byid, of "organizedBoxes @ selected"]
    obtain organized remaining m where
      res: "preMatchLoop n (organizedBoxes @ selected) rest (stl r) =
              Inr (organized, remaining, sdrop m (stl r))"
        "mset organized + mset remaining = mset (organizedBoxes @ selected) + mset rest"
      by blast
    have unfold: "preMatchLoop (Suc n) organizedBoxes remainingBoxes r =
        preMatchLoop n (organizedBoxes @ selected) rest (stl r)"
      using False k(2) by (simp add: Let_def selected_def rest_def)
    have "mset organized + mset remaining = mset organizedBoxes + mset remainingBoxes"
      using res(2) rest(1) sub by (simp add: subset_mset.add_diff_inverse)
    moreover have "preMatchLoop (Suc n) organizedBoxes remainingBoxes r =
        Inr (organized, remaining, sdrop (Suc m) r)"
      using unfold res(1) by simp
    ultimately show ?thesis by blast
  qed
qed

lemma fillStack_take_drop:
  "fillStack boxes m i = take m (drop (i * m) boxes)"
proof -
  have "map (\<lambda>k. boxes ! k) (filter (\<lambda>k. k < length boxes) (map (\<lambda>j. a + j) [0..<n])) =
      take n (drop a boxes)" for a n
  proof (induction n)
    case 0
    then show ?case by simp
  next
    case (Suc n)
    show ?case
    proof (cases "a + n < length boxes")
      case True
      then have "take (Suc n) (drop a boxes) = take n (drop a boxes) @ [boxes ! (a + n)]"
        by (simp add: take_Suc_conv_app_nth)
      with True Suc show ?thesis by simp
    next
      case False
      then have "take (Suc n) (drop a boxes) = take n (drop a boxes)" by simp
      with False Suc show ?thesis by simp
    qed
  qed
  then show ?thesis by (simp add: fillStack_def)
qed

lemma concat_chunks:
  "concat (map (\<lambda>i. take m (drop (i * m) boxes)) [0..<f]) = take (f * m) boxes"
proof (induction f)
  case 0
  then show ?case by simp
next
  case (Suc f)
  have "take (f * m + m) boxes = take (f * m) boxes @ take m (drop (f * m) boxes)"
    by (rule take_add)
  then have "take (f * m) boxes @ take m (drop (f * m) boxes) = take (Suc f * m) boxes"
    by (simp add: add.commute)
  with Suc show ?case by simp
qed

lemma fillStack_fun: "fillStack boxes m = (\<lambda>i. take m (drop (i * m) boxes))"
  by (rule ext) (rule fillStack_take_drop)

lemma filled_stacks:
  assumes "length boxes = f * m"
  shows "concat (map (fillStack boxes m) [0..<f]) = boxes"
    and "map length (map (fillStack boxes m) [0..<f]) = replicate f m"
proof -
  show "concat (map (fillStack boxes m) [0..<f]) = boxes"
    unfolding fillStack_fun concat_chunks using assms by simp
  have "length (fillStack boxes m i) = m" if "i < f" for i
  proof -
    from that have "Suc i \<le> f" by simp
    then have "Suc i * m \<le> f * m" by (rule mult_le_mono1)
    then have "i * m + m \<le> length boxes" using assms by simp
    then show ?thesis by (simp add: fillStack_take_drop)
  qed
  then show "map length (map (fillStack boxes m) [0..<f]) = replicate f m"
    by (simp add: list_eq_iff_nth_eq)
qed

lemma map_length_update_same:
  assumes "length y = length (xs ! i)"
  shows "map length (xs[i := y]) = map length xs"
proof (cases "i < length xs")
  case True
  with assms show ?thesis by (simp add: map_update list_update_same_conv)
next
  case False
  then have "length xs \<le> i" by simp
  then have "xs[i := y] = xs" by (rule list_update_beyond)
  then show ?thesis by simp
qed

lemma mset_list_update_add:
  "j < length ys \<Longrightarrow> mset (ys[j := t]) + {#ys ! j#} = mset ys + {#t#}"
  by (induction ys arbitrary: j) (auto simp: nth_Cons split: nat.splits)

lemma mset_concat_update_add:
  "i < length xs \<Longrightarrow> mset (concat (xs[i := y])) + mset (xs ! i) = mset (concat xs) + mset y"
  by (induction xs arbitrary: i) (auto simp: nth_Cons split: nat.splits)

lemma mset_concat_permuted:
  assumes "i < length xs" and "mset y = mset (xs ! i)"
  shows "mset (concat (xs[i := y])) = mset (concat xs)"
  using mset_concat_update_add [OF assms(1), of y] assms(2) by simp

lemma map_length_permuted:
  assumes "mset y = mset (xs ! i)"
  shows "map length (xs[i := y]) = map length xs"
  by (rule map_length_update_same) (rule mset_eq_length [OF assms])

lemma swapBoxes_keeps:
  assumes i: "i < length b" and j: "j < length (b ! i)"
    and rs: "0 \<le> rs" "nat rs < length b"
    and rb: "0 \<le> rb" "nat rb < length (b ! nat rs)"
  shows "\<exists>b'. swapBoxes b i j rs rb = Inr b' \<and> map length b' = map length b \<and>
           mset (concat b') = mset (concat b)"
proof -
  define t where "t = b ! nat rs ! nat rb"
  define temp where "temp = b ! i ! j"
  define b1 where "b1 = b[i := (b ! i)[j := t]]"
  define b2 where "b2 = b1[nat rs := (b1 ! nat rs)[nat rb := temp]]"
  have eq: "swapBoxes b i j rs rb = Inr b2"
    using rs rb by (simp add: swapBoxes_def stackAt_def boxAt_def Let_def b2_def b1_def t_def temp_def)
  have len1: "map length b1 = map length b"
    unfolding b1_def by (rule map_length_update_same) simp
  then have l1: "length b1 = length b" by (metis length_map)
  have len2: "map length b2 = map length b1"
    unfolding b2_def by (rule map_length_update_same) simp
  have "mset (concat b1) + mset (b ! i) = mset (concat b) + mset ((b ! i)[j := t])"
    unfolding b1_def by (rule mset_concat_update_add [OF i])
  then have "mset (concat b1) + mset (b ! i) + {#temp#} =
      mset (concat b) + (mset ((b ! i)[j := t]) + {#b ! i ! j#})"
    by (simp add: temp_def)
  also have "\<dots> = mset (concat b) + (mset (b ! i) + {#t#})"
    by (simp only: mset_list_update_add [OF j])
  finally have e1: "mset (concat b1) + {#temp#} = mset (concat b) + {#t#}" by simp
  have rb1: "nat rb < length (b1 ! nat rs)"
    using rb(2) i by (cases "nat rs = i") (simp_all add: b1_def)
  have old: "b1 ! nat rs ! nat rb = t"
    using i j rb(2) by (cases "nat rs = i") (auto simp: b1_def t_def nth_list_update)
  have "mset (concat b2) + mset (b1 ! nat rs) =
      mset (concat b1) + mset ((b1 ! nat rs)[nat rb := temp])"
    unfolding b2_def by (rule mset_concat_update_add) (simp add: l1 rs(2))
  then have "mset (concat b2) + mset (b1 ! nat rs) + {#t#} =
      mset (concat b1) + (mset ((b1 ! nat rs)[nat rb := temp]) + {#b1 ! nat rs ! nat rb#})"
    by (simp add: old)
  also have "\<dots> = mset (concat b1) + (mset (b1 ! nat rs) + {#temp#})"
    by (simp only: mset_list_update_add [OF rb1])
  finally have "mset (concat b2) + {#t#} = mset (concat b1) + {#temp#}" by simp
  with e1 have "mset (concat b2) = mset (concat b)" by simp
  with eq len1 len2 show ?thesis by simp
qed

lemma fold_invariant:
  "P a \<Longrightarrow> (\<And>x a. x \<in> set xs \<Longrightarrow> P a \<Longrightarrow> P (f x a)) \<Longrightarrow> P (fold f xs a)"
  by (induction xs arbitrary: a) simp_all

lemma foldE_invariant:
  "P a \<Longrightarrow> (\<And>x a. x \<in> set xs \<Longrightarrow> P a \<Longrightarrow> \<exists>a'. f x a = Inr a' \<and> P a') \<Longrightarrow>
   \<exists>a'. foldE f xs a = Inr a' \<and> P a'"
proof (induction xs arbitrary: a)
  case Nil
  then show ?case by simp
next
  case (Cons x xs)
  from Cons.prems obtain a' where a': "f x a = Inr a'" "P a'" by (meson list.set_intros(1))
  from Cons.IH [OF a'(2)] Cons.prems(2) obtain a'' where "foldE f xs a' = Inr a''" "P a''"
    by (meson list.set_intros(2))
  with a'(1) show ?case by simp
qed

lemma keeps_length: "keeps M shape state \<Longrightarrow> length (fst state) = length shape"
  by (metis keeps_def length_map)

lemma keeps_nth: "keeps M shape state \<Longrightarrow> i < length shape \<Longrightarrow> length (fst state ! i) = shape ! i"
  by (metis keeps_def keeps_length nth_map)

lemma keeps_sorted:
  assumes "keeps M shape state" and "i < length shape"
    and "mset arranged = mset (fst state ! i)" and "r' = sdrop n (snd state)"
  shows "keeps M shape ((fst state)[i := arranged], r')"
proof -
  have i: "i < length (fst state)" using assms(1,2) by (simp add: keeps_length)
  from assms(1) have "drawsInRange (snd state)" by (simp add: keeps_def)
  then have "drawsInRange r'" unfolding assms(4) by (rule drawsInRange_sdrop)
  with assms(1) mset_concat_permuted [OF i assms(3)] map_length_permuted [OF assms(3)]
  show ?thesis by (simp add: keeps_def)
qed

lemma keeps_draws:
  assumes "keeps M shape state"
  shows "keeps M shape (fst state, sdrop n (snd state))"
  using assms drawsInRange_sdrop by (simp add: keeps_def)

lemma groupStep_keeps:
  assumes "permutingSort sortBoxes localeCompare" and "keeps M shape state" and "i < length shape"
  shows "keeps M shape (groupStep sortBoxes localeCompare i state)"
proof (cases "shd (snd state) < 7 / 10")
  case True
  from assms(1) obtain n where
    m: "mset (fst (sortBoxes (byCatId localeCompare) (fst state ! i) (stl (snd state)))) =
          mset (fst state ! i)"
    and n: "snd (sortBoxes (byCatId localeCompare) (fst state ! i) (stl (snd state))) =
          sdrop n (stl (snd state))"
    unfolding permutingSort_def by blast
  from n have "snd (sortBoxes (byCatId localeCompare) (fst state ! i) (stl (snd state))) =
      sdrop (Suc n) (snd state)" by simp
  from keeps_sorted [OF assms(2,3) m this] True show ?thesis
    by (simp add: groupStep_def Let_def)
next
  case False
  from keeps_draws [OF assms(2), of 1] False show ?thesis
    by (simp add: groupStep_def Let_def)
qed

lemma swap_keeps:
  assumes k: "keeps M shape (b, r)" and i: "i < length shape" and j: "j < shape ! i"
    and rs: "0 \<le> rs" "nat rs < length shape" and pos: "0 < shape ! nat rs"
    and rng: "drawsInRange r'" and x: "0 \<le> x" "x < 1"
  shows "\<exists>b'. swapBoxes b i j rs \<lfloor>x * real (length (b ! nat rs))\<rfloor> = Inr b' \<and>
           keeps M shape (b', r')"
proof -
  have lb: "length b = length shape" using keeps_length [OF k] by simp
  have li: "length (b ! i) = shape ! i" using keeps_nth [OF k i] by simp
  have lr: "length (b ! nat rs) = shape ! nat rs" using keeps_nth [OF k rs(2)] by simp
  from floor_draw_index [OF x, of "length (b ! nat rs)"] pos lr
  have rb: "0 \<le> \<lfloor>x * real (length (b ! nat rs))\<rfloor>"
      "nat \<lfloor>x * real (length (b ! nat rs))\<rfloor> < length (b ! nat rs)"
    by simp_all
  from swapBoxes_keeps [of i b j rs, OF _ _ rs(1) _ rb] i j rs(2) lb li
  obtain b' where "swapBoxes b i j rs \<lfloor>x * real (length (b ! nat rs))\<rfloor> = Inr b'"
    "map length b' = map length b" "mset (concat b') = mset (concat b)"
    by auto
  with k rng show ?thesis by (auto simp: keeps_def)
qed

lemma shuffleStep_keeps:
  assumes srt: "permutingSort sortBoxes localeCompare" and k: "keeps M shape state"
    and i: "i < f" and f: "f \<le> length shape" and full: "\<forall>k < f. shape ! k = MAX_STACK_SIZE"
  shows "\<exists>state'. shuffleStep sortBoxes f i state = Inr state' \<and> keeps M shape state'"
proof -
  from srt obtain n where
    m: "mset (fst (sortBoxes randomOrder (fst state ! i) (snd state))) = mset (fst state ! i)"
    and n: "snd (sortBoxes randomOrder (fst state ! i) (snd state)) = sdrop n (snd state)"
    unfolding permutingSort_def by blast
  define b where "b = (fst state)[i := fst (sortBoxes randomOrder (fst state ! i) (snd state))]"
  define r where "r = snd (sortBoxes randomOrder (fst state ! i) (snd state))"
  have il: "i < length shape" using i f by simp
  have k1: "keeps M shape (b, r)"
    unfolding b_def r_def by (rule keeps_sorted [OF k il m n])
  then have dr: "drawsInRange r" by (simp add: keeps_def)
  have fpos: "0 < f" using i by simp
  define rs where "rs = otherStackIndex i f (shd r)"
  from otherStackIndex_range [OF _ _ fpos, of "shd r" i] drawsInRange_shd [OF dr]
  have rs: "0 \<le> rs" "nat rs < f" by (simp_all add: rs_def)
  then have rsl: "nat rs < length shape" using f by simp
  have sa: "stackAt b rs = Some (b ! nat rs)"
    using rs(1) rsl keeps_length [OF k1] by (simp add: stackAt_def)
  have pos: "0 < shape ! nat rs" using full rs(2) by (simp add: MAX_STACK_SIZE_def)
  have j: "0 < shape ! i" using full i by (simp add: MAX_STACK_SIZE_def)
  have dr2: "drawsInRange (stl (stl r))" using dr by (intro drawsInRange_stl)
  from drawsInRange_shd [OF drawsInRange_stl [OF dr]]
  have x: "0 \<le> shd (stl r)" "shd (stl r) < 1" by simp_all
  from swap_keeps [OF k1 il j rs(1) rsl pos dr2 x]
  obtain b' where b': "swapBoxes b i 0 rs \<lfloor>shd (stl r) * real (length (b ! nat rs))\<rfloor> = Inr b'"
    "keeps M shape (b', stl (stl r))" by blast
  show ?thesis
    using k1 b' sa
    by (auto simp: shuffleStep_def Let_def b_def [symmetric] r_def [symmetric] rs_def [symmetric])
qed

lemma breakupStep_keeps:
  assumes k: "keeps M shape state" and i: "i < f" and f: "f \<le> length shape"
    and j: "j < shape ! i"
  shows "\<exists>state'. breakupStep config f i j state = Inr state' \<and> keeps M shape state'"
proof -
  obtain b r where st: "state = (b, r)" by (cases state)
  have k0: "keeps M shape (b, r)" using k st by simp
  then have dr: "drawsInRange r" by (simp add: keeps_def)
  have il: "i < length shape" using i f by simp
  have fpos: "0 < f" using i by simp
  define rs where "rs = otherStackIndex i f (shd (stl r))"
  from otherStackIndex_range [OF _ _ fpos, of "shd (stl r)" i]
    drawsInRange_shd [OF drawsInRange_stl [OF dr]]
  have rs: "0 \<le> rs" "nat rs < f" by (simp_all add: rs_def)
  then have rsl: "nat rs < length shape" using f by simp
  have sa: "stackAt b rs = Some (b ! nat rs)"
    using rs(1) rsl keeps_length [OF k0] by (simp add: stackAt_def)
  have k1: "keeps M shape (b, stl r)" using keeps_draws [OF k0, of 1] by simp
  have k2: "keeps M shape (b, stl (stl r))" using keeps_draws [OF k0, of 2] by (simp add: numeral_2_eq_2)
  have dr3: "drawsInRange (stl (stl (stl r)))" using dr by (intro drawsInRange_stl)
  from drawsInRange_shd [OF drawsInRange_stl [OF drawsInRange_stl [OF dr]]]
  have x: "0 \<le> shd (stl (stl r))" "shd (stl (stl r)) < 1" by simp_all
  show ?thesis
  proof (cases "length (b ! nat rs) > 0")
    case True
    moreover have "length (b ! nat rs) = shape ! nat rs" using keeps_nth [OF k0 rsl] by simp
    ultimately have pos: "0 < shape ! nat rs" by simp
    from swap_keeps [OF k0 il j rs(1) rsl pos dr3 x]
    obtain b' where "swapBoxes b i j rs \<lfloor>shd (stl (stl r)) * real (length (b ! nat rs))\<rfloor> = Inr b'"
      "keeps M shape (b', stl (stl (stl r)))" by blast
    with k0 k1 sa True show ?thesis
      by (auto simp: breakupStep_def Let_def st rs_def [symmetric])
  next
    case False
    with k0 k1 k2 sa show ?thesis
      by (auto simp: breakupStep_def Let_def st rs_def [symmetric])
  qed
qed

lemma breakupRow_keeps:
  assumes k: "keeps M shape state" and i: "i < f" and f: "f \<le> length shape"
  shows "\<exists>state'. breakupRow config f i state = Inr state' \<and> keeps M shape state'"
proof -
  have il: "i < length shape" using i f by simp
  have len: "length (fst state ! i) = shape ! i" by (rule keeps_nth [OF k il])
  have "\<exists>a'. foldE (breakupStep config f i) [1..<shape ! i] state = Inr a' \<and> keeps M shape a'"
  proof (rule foldE_invariant [where P = "keeps M shape"])
    show "keeps M shape state" by (rule k)
  next
    fix j a
    assume "j \<in> set [1..<shape ! i]" and a: "keeps M shape a"
    then have "j < shape ! i" by simp
    then show "\<exists>a'. breakupStep config f i j a = Inr a' \<and> keeps M shape a'"
      by (rule breakupStep_keeps [OF a i f])
  qed
  then show ?thesis by (simp add: breakupRow_def len)
qed

subsection \<open>Facts about the two checks\<close>

lemma fold_stacks:
  "fold (\<lambda>stack catCounts. fold countCat stack catCounts) newStacks m =
     fold countCat (concat newStacks) m"
  by (induction newStacks arbitrary: m) simp_all

lemma catCountsOf_concat: "catCountsOf newStacks = fold countCat (concat newStacks) []"
  by (simp add: catCountsOf_def fold_stacks)

lemma distinct_fold_countCat:
  "distinct (map fst m) \<Longrightarrow> distinct (map fst (fold countCat boxes m))"
  by (induction boxes arbitrary: m) (simp_all add: countCat_def distinct_update)

lemma map_of_countCat:
  "map_of (countCat b m) k =
     (if kind b = k then Some ((case map_of m k of None \<Rightarrow> 0 | Some n \<Rightarrow> n) + 1)
      else map_of m k)"
  by (simp add: countCat_def update_conv')

lemma map_of_fold_countCat:
  "map_of (fold countCat boxes m) k =
     (if countKind k boxes = 0 then map_of m k
      else Some ((case map_of m k of None \<Rightarrow> 0 | Some n \<Rightarrow> n) + countKind k boxes))"
proof (induction boxes arbitrary: m)
  case Nil
  then show ?case by (simp add: countKind_def)
next
  case (Cons b boxes)
  show ?case
    by (simp add: Cons.IH map_of_countCat countKind_def split: option.splits)
qed

lemma tooManyBoxesOfOnecat_iff:
  "tooManyBoxesOfOnecat newStacks \<longleftrightarrow> (\<exists>k. countKind k (concat newStacks) > MAX_STACK_SIZE)"
proof -
  have d: "distinct (map fst (catCountsOf newStacks))"
    by (simp add: catCountsOf_concat distinct_fold_countCat)
  have look: "map_of (catCountsOf newStacks) k =
      (if countKind k (concat newStacks) = 0 then None
       else Some (countKind k (concat newStacks)))" for k
    by (simp add: catCountsOf_concat map_of_fold_countCat)
  have "tooManyBoxesOfOnecat newStacks \<longleftrightarrow>
      (\<exists>k n. (k, n) \<in> set (catCountsOf newStacks) \<and> n > MAX_STACK_SIZE)"
    by (force simp: tooManyBoxesOfOnecat_def list_ex_iff)
  also have "\<dots> \<longleftrightarrow>
      (\<exists>k n. map_of (catCountsOf newStacks) k = Some n \<and> n > MAX_STACK_SIZE)"
    by (simp only: map_of_eq_Some_iff [OF d])
  also have "\<dots> \<longleftrightarrow> (\<exists>k. countKind k (concat newStacks) > MAX_STACK_SIZE)"
  proof
    assume "\<exists>k n. map_of (catCountsOf newStacks) k = Some n \<and> n > MAX_STACK_SIZE"
    then show "\<exists>k. countKind k (concat newStacks) > MAX_STACK_SIZE"
      by (auto simp: look split: if_splits)
  next
    assume "\<exists>k. countKind k (concat newStacks) > MAX_STACK_SIZE"
    then obtain k where k: "countKind k (concat newStacks) > MAX_STACK_SIZE" by blast
    then have "map_of (catCountsOf newStacks) k = Some (countKind k (concat newStacks))"
      by (simp add: look)
    with k show "\<exists>k n. map_of (catCountsOf newStacks) k = Some n \<and> n > MAX_STACK_SIZE"
      by blast
  qed
  finally show ?thesis .
qed

lemma countKind_mset: "countKind k boxes = size (filter_mset (\<lambda>b. kind b = k) (mset boxes))"
  by (simp add: countKind_def flip: mset_filter)

lemma oversizedStacks_iff:
  "oversizedStacks newStacks \<longleftrightarrow> (\<exists>n \<in> set (map length newStacks). n > MAX_STACK_SIZE)"
  by (auto simp: oversizedStacks_def list_ex_iff)

lemma length_createBoxes: "length (createBoxes cats) = length cats * MAX_STACK_SIZE"
  by (induction cats) (simp_all add: createBoxes_def)

lemma countKind_append: "countKind k (xs @ ys) = countKind k xs + countKind k ys"
  by (simp add: countKind_def)

lemma countKind_createBoxes:
  "countKind k (createBoxes cats) = MAX_STACK_SIZE * length (filter (\<lambda>c. cat_id c = k) cats)"
proof (induction cats)
  case Nil
  then show ?case by (simp add: createBoxes_def countKind_def)
next
  case (Cons c cats)
  have one: "countKind k (map (\<lambda>i. \<lparr>box_id = cat_id c @ ''-'' @ decimalDigit i, cat = c\<rparr>) [0..<n]) =
      (if cat_id c = k then n else 0)" for n
    by (induction n) (simp_all add: countKind_def kind_def)
  have "createBoxes (c # cats) =
      map (\<lambda>i. \<lparr>box_id = cat_id c @ ''-'' @ decimalDigit i, cat = c\<rparr>) [0..<MAX_STACK_SIZE] @
      createBoxes cats"
    by (simp add: createBoxes_def)
  then have "countKind k (createBoxes (c # cats)) =
      (if cat_id c = k then MAX_STACK_SIZE else 0) +
      MAX_STACK_SIZE * length (filter (\<lambda>c. cat_id c = k) cats)"
    by (simp only: countKind_append one Cons.IH)
  then show ?case by simp
qed

lemma boxesById_createBoxes:
  assumes "catsById cats"
  shows "boxesById (createBoxes cats)"
  unfolding boxesById_def
proof (intro ballI impI)
  fix x y
  assume "x \<in> set (createBoxes cats)" and "y \<in> set (createBoxes cats)"
    and same: "box_id x = box_id y"
  then obtain c i c' i' where
    x: "x = \<lparr>box_id = cat_id c @ ''-'' @ decimalDigit i, cat = c\<rparr>" "c \<in> set cats"
    and y: "y = \<lparr>box_id = cat_id c' @ ''-'' @ decimalDigit i', cat = c'\<rparr>" "c' \<in> set cats"
    by (auto simp: createBoxes_def)
  from same x(1) y(1) have "cat_id c @ ''-'' @ decimalDigit i = cat_id c' @ ''-'' @ decimalDigit i'"
    by simp
  then have "cat_id c = cat_id c'"
    by (simp add: decimalDigit_def)
  with assms x(2) y(2) have "c = c'" by (simp add: catsById_def)
  with same x(1) y(1) show "x = y" by simp
qed

subsection \<open>One attempt of the generator\<close>

lemma boxesPerStack_full:
  assumes "0 < f"
  shows "min MAX_STACK_SIZE ((f * MAX_STACK_SIZE + f - 1) div f) = MAX_STACK_SIZE"
proof -
  have "f * MAX_STACK_SIZE \<le> f * MAX_STACK_SIZE + f - 1" using assms by simp
  then have "f * MAX_STACK_SIZE div f \<le> (f * MAX_STACK_SIZE + f - 1) div f"
    by (rule div_le_mono)
  then have "MAX_STACK_SIZE \<le> (f * MAX_STACK_SIZE + f - 1) div f" using assms by simp
  then show ?thesis by simp
qed

lemma generateStacks_keeps:
  assumes srt: "permutingSort sortBoxes localeCompare" and dr: "drawsInRange r"
    and ids: "catsById cats" and ne: "cats \<noteq> []"
    and f: "cfg_stacks config - cfg_emptyStacks config = length cats"
  shows "\<exists>b r'. generateStacks sortBoxes localeCompare difficulty cats config r = Some (Inr (b, r')) \<and>
      keeps (mset (createBoxes cats))
        (replicate (length cats) MAX_STACK_SIZE @ replicate (cfg_emptyStacks config) 0) (b, r')"
proof -
  define M where "M = mset (createBoxes cats)"
  define shape where
    "shape = replicate (length cats) MAX_STACK_SIZE @ replicate (cfg_emptyStacks config) 0"
  define pairs :: nat where "pairs = (case difficulty of easy \<Rightarrow> 4 | medium \<Rightarrow> 3 | hard \<Rightarrow> 2)"
  define sh where "sh = sortBoxes randomOrder (createBoxes cats) r"
  have fpos: "0 < length cats" using ne by simp
  from srt obtain n0 where sh_m: "mset (fst sh) = mset (createBoxes cats)"
    and sh_r: "snd sh = sdrop n0 r"
    unfolding permutingSort_def sh_def by blast
  have dr0: "drawsInRange (snd sh)" unfolding sh_r by (rule drawsInRange_sdrop [OF dr])
  have "set (fst sh) = set (createBoxes cats)" using sh_m by (rule mset_eq_setD)
  then have byid: "boxesById (fst sh)"
    using boxesById_createBoxes [OF ids] by (simp add: boxesById_def)
  from preMatchLoop_keeps [OF dr0 byid, of pairs "[]"] obtain organized remaining m where
    pm: "preMatchLoop pairs [] (fst sh) (snd sh) = Inr (organized, remaining, sdrop m (snd sh))"
    and pm_m: "mset organized + mset remaining = mset (fst sh)"
    by auto
  define r1 where "r1 = sdrop m (snd sh)"
  have dr1: "drawsInRange r1" unfolding r1_def by (rule drawsInRange_sdrop [OF dr0])
  define mixed where "mixed = organized @ remaining"
  have mixed_m: "mset mixed = M" using pm_m sh_m by (simp add: mixed_def M_def)
  then have "length mixed = length (createBoxes cats)"
    unfolding M_def by (rule mset_eq_length)
  then have mixed_l: "length mixed = length cats * MAX_STACK_SIZE"
    by (simp add: length_createBoxes)
  have bps: "(if length cats = 0 then MAX_STACK_SIZE
     else min MAX_STACK_SIZE ((length (createBoxes cats) + length cats - 1) div length cats)) =
     MAX_STACK_SIZE"
    using fpos boxesPerStack_full [OF fpos] by (simp add: length_createBoxes)
  define filled where "filled = map (fillStack mixed MAX_STACK_SIZE) [0..<length cats]"
  from filled_stacks [OF mixed_l] have filled_c: "concat filled = mixed"
    and filled_l: "map length filled = replicate (length cats) MAX_STACK_SIZE"
    by (simp_all add: filled_def)
  have left: "drop (length cats * MAX_STACK_SIZE) mixed = []" using mixed_l by simp
  have dist: "distributeLeftover (length cats) filled [] 0 = Some filled"
    by (subst distributeLeftover.simps) simp
  define st0 where "st0 = (filled @ replicate (cfg_emptyStacks config) [], r1)"
  have k0: "keeps M shape st0"
    using filled_c filled_l mixed_m dr1 by (simp add: keeps_def st0_def shape_def)
  have ls: "length shape = length cats + cfg_emptyStacks config" by (simp add: shape_def)
  have fl: "length cats \<le> length shape" by (simp add: ls)
  have full: "\<forall>k < length cats. shape ! k = MAX_STACK_SIZE"
    by (simp add: shape_def nth_append)
  define grouped where
    "grouped = (if difficulty = easy
       then fold (groupStep sortBoxes localeCompare) [0..<length cats] st0 else st0)"
  have kg: "keeps M shape grouped"
  proof (cases "difficulty = easy")
    case True
    have "keeps M shape (fold (groupStep sortBoxes localeCompare) [0..<length cats] st0)"
    proof (rule fold_invariant [where P = "keeps M shape"])
      show "keeps M shape st0" by (rule k0)
    next
      fix i a
      assume "i \<in> set [0..<length cats]" and a: "keeps M shape a"
      then have "i < length shape" using fl by simp
      then show "keeps M shape (groupStep sortBoxes localeCompare i a)"
        by (rule groupStep_keeps [OF srt a])
    qed
    with True show ?thesis by (simp add: grouped_def)
  next
    case False
    with k0 show ?thesis by (simp add: grouped_def)
  qed
  have "\<exists>st2. (if difficulty \<noteq> easy
       then foldE (shuffleStep sortBoxes (length cats)) [0..<length cats] grouped
       else Inr grouped) = Inr st2 \<and> keeps M shape st2"
  proof (cases "difficulty = easy")
    case True
    with kg show ?thesis by simp
  next
    case False
    have "\<exists>a'. foldE (shuffleStep sortBoxes (length cats)) [0..<length cats] grouped = Inr a' \<and>
        keeps M shape a'"
    proof (rule foldE_invariant [where P = "keeps M shape"])
      show "keeps M shape grouped" by (rule kg)
    next
      fix i a
      assume "i \<in> set [0..<length cats]" and a: "keeps M shape a"
      then have "i < length cats" by simp
      then show "\<exists>a'. shuffleStep sortBoxes (length cats) i a = Inr a' \<and> keeps M shape a'"
        by (rule shuffleStep_keeps [OF srt a _ fl full])
    qed
    with False show ?thesis by simp
  qed
  then obtain st2 where st2: "(if difficulty \<noteq> easy
       then foldE (shuffleStep sortBoxes (length cats)) [0..<length cats] grouped
       else Inr grouped) = Inr st2" and k2: "keeps M shape st2"
    by blast
  have "\<exists>a'. foldE (breakupRow config (length cats)) [0..<length cats] st2 = Inr a' \<and>
      keeps M shape a'"
  proof (rule foldE_invariant [where P = "keeps M shape"])
    show "keeps M shape st2" by (rule k2)
  next
    fix i a
    assume "i \<in> set [0..<length cats]" and a: "keeps M shape a"
    then have "i < length cats" by simp
    then show "\<exists>a'. breakupRow config (length cats) i a = Inr a' \<and> keeps M shape a'"
      by (rule breakupRow_keeps [OF a _ fl])
  qed
  then obtain st3 where st3: "foldE (breakupRow config (length cats)) [0..<length cats] st2 = Inr st3"
    and k3: "keeps M shape st3"
    by blast
  have "generateStacks sortBoxes localeCompare difficulty cats config r = Some (Inr st3)"
    apply (simp only: generateStacks_def Let_def f bps sh_def [symmetric] pairs_def [symmetric]
        pm sum.case prod.case)
    apply (simp only: r1_def [symmetric] mixed_def [symmetric] filled_def [symmetric] left dist
        option.case st0_def [symmetric] grouped_def [symmetric] st2 sum.case st3)
    done
  with k3 show ?thesis
    unfolding M_def shape_def by (cases st3) auto
qed

lemma insertBox_permutes:
  assumes "\<forall>a b r. \<exists>k. snd (cmp a b r) = sdrop k r"
  shows "mset (fst (insertBox cmp x ys r)) = add_mset x (mset ys) \<and>
         (\<exists>n. snd (insertBox cmp x ys r) = sdrop n r)"
proof (induction ys arbitrary: r)
  case Nil
  have "snd (insertBox cmp x [] r) = sdrop 0 r" by simp
  then show ?case by (metis fst_conv insertBox.simps(1) mset.simps(1) mset.simps(2))
next
  case (Cons y ys)
  from assms obtain k where k: "snd (cmp x y r) = sdrop k r" by blast
  show ?case
  proof (cases "fst (cmp x y r) \<le> 0")
    case True
    with k show ?thesis by (auto simp: Let_def)
  next
    case False
    from Cons [of "snd (cmp x y r)"] obtain n where
      m: "mset (fst (insertBox cmp x ys (snd (cmp x y r)))) = add_mset x (mset ys)"
      and n: "snd (insertBox cmp x ys (snd (cmp x y r))) = sdrop n (snd (cmp x y r))"
      by blast
    from n k have "snd (insertBox cmp x ys (snd (cmp x y r))) = sdrop (k + n) r"
      by (simp add: sdrop_add)
    with False m show ?thesis by (auto simp: Let_def)
  qed
qed

lemma insertionSort_permutes:
  assumes "\<forall>a b r. \<exists>k. snd (cmp a b r) = sdrop k r"
  shows "mset (fst (insertionSort cmp xs r)) = mset xs \<and>
         (\<exists>n. snd (insertionSort cmp xs r) = sdrop n r)"
proof (induction xs)
  case Nil
  have "snd (insertionSort cmp [] r) = sdrop 0 r" by simp
  then show ?case by (metis fst_conv insertionSort.simps(1))
next
  case (Cons x xs)
  then obtain n where m: "mset (fst (insertionSort cmp xs r)) = mset xs"
    and n: "snd (insertionSort cmp xs r) = sdrop n r"
    by blast
  from insertBox_permutes [OF assms, of x "fst (insertionSort cmp xs r)" "snd (insertionSort cmp xs r)"]
  obtain n' where "mset (fst (insertBox cmp x (fst (insertionSort cmp xs r))
        (snd (insertionSort cmp xs r)))) = add_mset x (mset (fst (insertionSort cmp xs r)))"
    and "snd (insertBox cmp x (fst (insertionSort cmp xs r)) (snd (insertionSort cmp xs r))) =
        sdrop n' (snd (insertionSort cmp xs r))"
    by blast
  with m n have "mset (fst (insertionSort cmp (x # xs) r)) = mset (x # xs)"
    and "snd (insertionSort cmp (x # xs) r) = sdrop (n + n') r"
    by (simp_all add: Let_def sdrop_add)
  then show ?case by blast
qed

lemma permutingSort_insertionSort: "permutingSort insertionSort localeCompare"
proof -
  have a: "\<forall>a b r. \<exists>k. snd (randomOrder a b r) = sdrop k r"
  proof (intro allI)
    fix a b r
    have "snd (randomOrder a b r) = sdrop 1 r" by (simp add: randomOrder_def)
    then show "\<exists>k. snd (randomOrder a b r) = sdrop k r" by blast
  qed
  have b: "\<forall>a b r. \<exists>k. snd (byCatId localeCompare a b r) = sdrop k r"
  proof (intro allI)
    fix a b r
    have "snd (byCatId localeCompare a b r) = sdrop 0 r" by (simp add: byCatId_def)
    then show "\<exists>k. snd (byCatId localeCompare a b r) = sdrop k r" by blast
  qed
  from insertionSort_permutes [OF a] insertionSort_permutes [OF b]
  show ?thesis unfolding permutingSort_def by blast
qed

lemma drawsInRange_sconst: "0 \<le> x \<Longrightarrow> x < 1 \<Longrightarrow> drawsInRange (sconst x)"
  by (simp add: drawsInRange_def)

lemma distinct_filter_key:
  "distinct (map f xs) \<Longrightarrow> length (filter (\<lambda>x. f x = k) xs) \<le> 1"
proof (induction xs)
  case Nil
  then show ?case by simp
next
  case (Cons x xs)
  show ?case
  proof (cases "f x = k")
    case True
    with Cons.prems have "filter (\<lambda>x. f x = k) xs = []"
      by (force simp: filter_empty_conv image_iff)
    with True show ?thesis by simp
  next
    case False
    with Cons show ?thesis by simp
  qed
qed

lemma distinct_catsById: "distinct (map cat_id cats) \<Longrightarrow> catsById cats"
  unfolding catsById_def by (metis distinct_map inj_onD)

lemma keeps_countKind:
  assumes "keeps (mset boxes) shape (b, r')"
  shows "countKind k (concat b) = countKind k boxes"
  using assms by (simp add: keeps_def countKind_mset)

lemma keeps_not_oversized:
  assumes "keeps M (replicate f MAX_STACK_SIZE @ replicate e 0) (b, r')"
  shows "\<not> oversizedStacks b"
proof -
  from assms have "map length b = replicate f MAX_STACK_SIZE @ replicate e 0"
    by (simp add: keeps_def)
  then show ?thesis by (auto simp: oversizedStacks_iff)
qed

lemma attempt_passes:
  assumes "permutingSort sortBoxes localeCompare" and "drawsInRange r"
    and "distinct (map cat_id cats)" and "cats \<noteq> []"
    and "cfg_stacks config - cfg_emptyStacks config = length cats"
  shows "\<exists>b r'. generateStacks sortBoxes localeCompare difficulty cats config r = Some (Inr (b, r')) \<and>
           \<not> oversizedStacks b \<and> \<not> tooManyBoxesOfOnecat b"
proof -
  from generateStacks_keeps [OF assms(1,2) distinct_catsById [OF assms(3)] assms(4,5)]
  obtain b r' where gen: "generateStacks sortBoxes localeCompare difficulty cats config r =
      Some (Inr (b, r'))"
    and k: "keeps (mset (createBoxes cats))
        (replicate (length cats) MAX_STACK_SIZE @ replicate (cfg_emptyStacks config) 0) (b, r')"
    by blast
  have "countKind c (concat b) \<le> MAX_STACK_SIZE" for c
  proof -
    have "countKind c (concat b) = MAX_STACK_SIZE * length (filter (\<lambda>x. cat_id x = c) cats)"
      by (simp add: keeps_countKind [OF k] countKind_createBoxes)
    also have "\<dots> \<le> MAX_STACK_SIZE * 1"
      by (rule mult_le_mono2) (rule distinct_filter_key [OF assms(3)])
    finally show ?thesis by simp
  qed
  then have "\<not> tooManyBoxesOfOnecat b"
    by (simp add: tooManyBoxesOfOnecat_iff not_less)
  with gen keeps_not_oversized [OF k] show ?thesis by blast
qed

lemma attempt_fails:
  assumes "permutingSort sortBoxes localeCompare" and "drawsInRange r"
    and "catsById cats" and "cats \<noteq> []"
    and "cfg_stacks config - cfg_emptyStacks config = length cats"
    and "2 \<le> length (filter (\<lambda>c. cat_id c = k) cats)"
  shows "\<exists>b r'. generateStacks sortBoxes localeCompare difficulty cats config r = Some (Inr (b, r')) \<and>
           tooManyBoxesOfOnecat b \<and> drawsInRange r'"
proof -
  from generateStacks_keeps [OF assms(1-5)]
  obtain b r' where gen: "generateStacks sortBoxes localeCompare difficulty cats config r =
      Some (Inr (b, r'))"
    and kp: "keeps (mset (createBoxes cats))
        (replicate (length cats) MAX_STACK_SIZE @ replicate (cfg_emptyStacks config) 0) (b, r')"
    by blast
  have "MAX_STACK_SIZE * 2 \<le> MAX_STACK_SIZE * length (filter (\<lambda>c. cat_id c = k) cats)"
    by (rule mult_le_mono2) (rule assms(6))
  then have "MAX_STACK_SIZE < countKind k (concat b)"
    by (simp add: keeps_countKind [OF kp] countKind_createBoxes MAX_STACK_SIZE_def)
  then have "tooManyBoxesOfOnecat b"
    unfolding tooManyBoxesOfOnecat_iff by blast
  moreover from kp have "drawsInRange r'" by (simp add: keeps_def)
  ultimately show ?thesis using gen by blast
qed

lemma initializeGame_never:
  assumes "initializeGame sortBoxes localeCompare difficulty cats config r s = Some y"
  shows "\<not> (permutingSort sortBoxes localeCompare \<and> drawsInRange r \<and> catsById cats \<and>
            cats \<noteq> [] \<and> cfg_stacks config - cfg_emptyStacks config = length cats \<and>
            (\<exists>k. 2 \<le> length (filter (\<lambda>c. cat_id c = k) cats)))"
  using assms
proof (induction rule: initializeGame.raw_induct)
  case (1 again sortBoxes localeCompare difficulty cats config r s y)
  show ?case
  proof
    assume h: "permutingSort sortBoxes localeCompare \<and> drawsInRange r \<and> catsById cats \<and>
            cats \<noteq> [] \<and> cfg_stacks config - cfg_emptyStacks config = length cats \<and>
            (\<exists>k. 2 \<le> length (filter (\<lambda>c. cat_id c = k) cats))"
    then obtain k where k: "2 \<le> length (filter (\<lambda>c. cat_id c = k) cats)" by blast
    from h attempt_fails [of sortBoxes localeCompare r cats config k difficulty] k
    obtain b r' where gen: "generateStacks sortBoxes localeCompare difficulty cats config r =
        Some (Inr (b, r'))" and bad: "tooManyBoxesOfOnecat b" and dr: "drawsInRange r'"
      by blast
    from 1(2) h gen bad have again: "again sortBoxes localeCompare difficulty cats config r' s = Some y"
      by simp
    from 1(3) h gen bad
    have real: "initializeGame sortBoxes localeCompare difficulty cats config r' s = Some y"
      by (subst (asm) initializeGame.simps) simp
    from 1(1) [OF again real] h dr show False by blast
  qed
qed (rule assms)

lemma bounded_exhausted:
  assumes "permutingSort sortBoxes localeCompare" and "drawsInRange r" and "catsById cats"
    and "cats \<noteq> []" and "cfg_stacks config - cfg_emptyStacks config = length cats"
    and "2 \<le> length (filter (\<lambda>c. cat_id c = k) cats)"
  shows "boundedInitializeGame n sortBoxes localeCompare difficulty cats config r s =
           Some RetriesExhausted"
  using assms(2)
proof (induction n arbitrary: r)
  case 0
  then show ?case by simp
next
  case (Suc n)
  from attempt_fails [OF assms(1) Suc.prems assms(3-6), of difficulty]
  obtain b r' where gen: "generateStacks sortBoxes localeCompare difficulty cats config r =
      Some (Inr (b, r'))" and bad: "tooManyBoxesOfOnecat b" and dr: "drawsInRange r'"
    by blast
  from Suc.IH [OF dr] gen bad assms(4) show ?case by simp
qed

lemma initializeGame_bounded:
  "initializeGame sortBoxes localeCompare difficulty cats config r s = Some res \<longleftrightarrow>
     (\<exists>n. boundedInitializeGame n sortBoxes localeCompare difficulty cats config r s =
            Some (outcomeOf res))"
proof
  assume returned: "initializeGame sortBoxes localeCompare difficulty cats config r s = Some res"
  then show "\<exists>n. boundedInitializeGame n sortBoxes localeCompare difficulty cats config r s =
            Some (outcomeOf res)"
  proof (induction rule: initializeGame.raw_induct)
    case (1 again sortBoxes localeCompare difficulty cats config r s res)
    show ?case
    proof (cases "length cats = 0")
      case True
      with 1(2) have "boundedInitializeGame (Suc 0) sortBoxes localeCompare difficulty cats config r s =
          Some (outcomeOf res)"
        by (auto simp: outcomeOf_def)
      then show ?thesis by blast
    next
      case False
      show ?thesis
      proof (cases "generateStacks sortBoxes localeCompare difficulty cats config r")
        case None
        with 1(2) False show ?thesis by simp
      next
        case (Some attempt)
        show ?thesis
        proof (cases attempt)
          case (Inl e)
          with 1(2) False Some
          have "boundedInitializeGame (Suc 0) sortBoxes localeCompare difficulty cats config r s =
              Some (outcomeOf res)"
            by (auto simp: outcomeOf_def)
          then show ?thesis by blast
        next
          case (Inr generated)
          obtain b r' where g: "generated = (b, r')" by (cases generated)
          show ?thesis
          proof (cases "oversizedStacks b \<or> tooManyBoxesOfOnecat b")
            case True
            with 1(2) False Some Inr g
            have again: "again sortBoxes localeCompare difficulty cats config r' s = Some res"
              by simp
            from 1(3) True False Some Inr g
            have real: "initializeGame sortBoxes localeCompare difficulty cats config r' s = Some res"
              by (subst (asm) initializeGame.simps) simp
            from 1(1) [OF again real] obtain n where
              "boundedInitializeGame n sortBoxes localeCompare difficulty cats config r' s =
                 Some (outcomeOf res)" by blast
            with True False Some Inr g
            have "boundedInitializeGame (Suc n) sortBoxes localeCompare difficulty cats config r s =
                Some (outcomeOf res)"
              by simp
            then show ?thesis by blast
          next
            case nogood: False
            with 1(2) False Some Inr g
            have "boundedInitializeGame (Suc 0) sortBoxes localeCompare difficulty cats config r s =
                Some (outcomeOf res)"
              by (auto simp: outcomeOf_def)
            then show ?thesis by blast
          qed
        qed
      qed
    qed
  qed (rule returned)
next
  assume "\<exists>n. boundedInitializeGame n sortBoxes localeCompare difficulty cats config r s =
            Some (outcomeOf res)"
  then obtain n where "boundedInitializeGame n sortBoxes localeCompare difficulty cats config r s =
            Some (outcomeOf res)" by blast
  then show "initializeGame sortBoxes localeCompare difficulty cats config r s = Some res"
  proof (induction n arbitrary: r)
    case 0
    then show ?case by (simp add: outcomeOf_def split: sum.splits)
  next
    case (Suc n)
    show ?case
    proof (cases "length cats = 0")
      case True
      with Suc.prems show ?thesis
        by (subst initializeGame.simps) (auto simp: outcomeOf_def split: sum.splits)
    next
      case False
      show ?thesis
      proof (cases "generateStacks sortBoxes localeCompare difficulty cats config r")
        case None
        with Suc.prems False show ?thesis by simp
      next
        case (Some attempt)
        show ?thesis
        proof (cases attempt)
          case (Inl e)
          with Suc.prems False Some show ?thesis
            by (subst initializeGame.simps) (auto simp: outcomeOf_def split: sum.splits)
        next
          case (Inr generated)
          obtain b r' where g: "generated = (b, r')" by (cases generated)
          show ?thesis
          proof (cases "oversizedStacks b \<or> tooManyBoxesOfOnecat b")
            case True
            with Suc.prems False Some Inr g
            have "boundedInitializeGame n sortBoxes localeCompare difficulty cats config r' s =
                Some (outcomeOf res)" by simp
            from Suc.IH [OF this] True False Some Inr g show ?thesis
              by (subst initializeGame.simps) simp
          next
            case nogood: False
            with Suc.prems False Some Inr g show ?thesis
              by (subst initializeGame.simps) (auto simp: outcomeOf_def split: sum.splits)
          qed
        qed
      qed
    qed
  qed
qed

lemma initializeGame_first:
  assumes "permutingSort sortBoxes localeCompare" and "drawsInRange r"
    and "distinct (map cat_id cats)" and "cats \<noteq> []"
    and "cfg_stacks config - cfg_emptyStacks config = length cats"
  shows "\<exists>b r'. generateStacks sortBoxes localeCompare difficulty cats config r = Some (Inr (b, r')) \<and>
           \<not> oversizedStacks b \<and> \<not> tooManyBoxesOfOnecat b \<and>
           initializeGame sortBoxes localeCompare difficulty cats config r s =
             Some (Inr (storeNewGame b s, r'))"
proof -
  from attempt_passes [OF assms, of difficulty] obtain b r' where
    gen: "generateStacks sortBoxes localeCompare difficulty cats config r = Some (Inr (b, r'))"
    and ok: "\<not> oversizedStacks b" "\<not> tooManyBoxesOfOnecat b"
    by blast
  have "initializeGame sortBoxes localeCompare difficulty cats config r s =
      Some (Inr (storeNewGame b s, r'))"
    using gen ok assms(4) by (subst initializeGame.simps) simp
  with gen ok show ?thesis by blast
qed

text \<open>
  Claim C8, as the component has it. A board that fails a check makes \<open>initializeGame\<close>
  call itself again, without a bound on the number of attempts and without a failure
  signal: it returns a result exactly when the retry with some bound returns that
  result, which is never the signal that the attempts are exhausted. With cats of
  distinct ids, as many cats as filled stacks (as in all three levels), an engine sort
  that rearranges, and draws in range, the first attempt passes both checks, so
  \<open>initializeGame\<close> returns and stores that board.
\<close>

theorem initializeGame_retries_unbounded:
  "(initializeGame sortBoxes localeCompare difficulty cats config r s = Some res \<longleftrightarrow>
      (\<exists>n. boundedInitializeGame n sortBoxes localeCompare difficulty cats config r s =
             Some (outcomeOf res))) \<and>
   outcomeOf res \<noteq> RetriesExhausted \<and>
   (permutingSort sortBoxes localeCompare \<and> drawsInRange r \<and> distinct (map cat_id cats) \<and>
    cats \<noteq> [] \<and> cfg_stacks config - cfg_emptyStacks config = length cats \<longrightarrow>
      (\<exists>b r'. generateStacks sortBoxes localeCompare difficulty cats config r =
                 Some (Inr (b, r')) \<and>
               \<not> oversizedStacks b \<and> \<not> tooManyBoxesOfOnecat b \<and>
               initializeGame sortBoxes localeCompare difficulty cats config r s =
                 Some (Inr (storeNewGame b s, r'))))"
proof (intro conjI impI)
  show "initializeGame sortBoxes localeCompare difficulty cats config r s = Some res \<longleftrightarrow>
      (\<exists>n. boundedInitializeGame n sortBoxes localeCompare difficulty cats config r s =
             Some (outcomeOf res))"
    by (rule initializeGame_bounded)
  show "outcomeOf res \<noteq> RetriesExhausted"
    by (simp add: outcomeOf_def split: sum.splits)
next
  assume "permutingSort sortBoxes localeCompare \<and> drawsInRange r \<and> distinct (map cat_id cats) \<and>
    cats \<noteq> [] \<and> cfg_stacks config - cfg_emptyStacks config = length cats"
  then show "\<exists>b r'. generateStacks sortBoxes localeCompare difficulty cats config r =
                 Some (Inr (b, r')) \<and>
               \<not> oversizedStacks b \<and> \<not> tooManyBoxesOfOnecat b \<and>
               initializeGame sortBoxes localeCompare difficulty cats config r s =
                 Some (Inr (storeNewGame b s, r'))"
    using initializeGame_first by blast
qed

text \<open>
  The easy level with four cats, the insertion sort and a stream of draws that are all
  one half: \<open>initializeGame\<close> returns.
\<close>

theorem initializeGame_retries_unbounded_witness:
  "initializeGame insertionSort codeUnitCompare easy sampleCats (DIFFICULTY_CONFIG easy)
     (sconst (1 / 2)) (mountedSession True) \<noteq> None"
proof -
  have h: "permutingSort insertionSort codeUnitCompare \<and> drawsInRange (sconst (1 / 2)) \<and>
      distinct (map cat_id sampleCats) \<and> sampleCats \<noteq> [] \<and>
      cfg_stacks (DIFFICULTY_CONFIG easy) - cfg_emptyStacks (DIFFICULTY_CONFIG easy) =
        length sampleCats"
    by (simp add: permutingSort_insertionSort drawsInRange_sconst sampleCats_def sampleCat_def
        DIFFICULTY_CONFIG_def)
  from initializeGame_retries_unbounded
    [of insertionSort codeUnitCompare easy sampleCats "DIFFICULTY_CONFIG easy" "sconst (1 / 2)"
      "mountedSession True" "Inl TypeError"] h
  obtain b r' where
    "initializeGame insertionSort codeUnitCompare easy sampleCats (DIFFICULTY_CONFIG easy)
       (sconst (1 / 2)) (mountedSession True) = Some (Inr (storeNewGame b (mountedSession True), r'))"
    by blast
  then show ?thesis by simp
qed

text \<open>
  Claim C8, as stated, at a concrete input. With a list that names the same cat twice,
  every attempt counts eight boxes of that cat and fails the second check. The retry
  with a bound of three attempts ends with the signal that they are exhausted;
  \<open>initializeGame\<close> gives no signal and does not return.
\<close>

theorem initializeGame_twins_never_returns:
  "initializeGame insertionSort codeUnitCompare easy twinCats twoStackConfig
     (sconst (1 / 2)) (mountedSession True) = None \<and>
   boundedInitializeGame 3 insertionSort codeUnitCompare easy twinCats twoStackConfig
     (sconst (1 / 2)) (mountedSession True) = Some RetriesExhausted"
proof -
  have srt: "permutingSort insertionSort codeUnitCompare"
    by (rule permutingSort_insertionSort)
  have dr: "drawsInRange (sconst (1 / 2))" by (simp add: drawsInRange_sconst)
  have ids: "catsById twinCats" by (simp add: catsById_def twinCats_def)
  have ne: "twinCats \<noteq> []" by (simp add: twinCats_def)
  have f: "cfg_stacks twoStackConfig - cfg_emptyStacks twoStackConfig = length twinCats"
    by (simp add: twoStackConfig_def twinCats_def)
  have two: "2 \<le> length (filter (\<lambda>c. cat_id c = ''cat-0'') twinCats)"
    by (simp add: twinCats_def sampleCat_def)
  have "initializeGame insertionSort codeUnitCompare easy twinCats twoStackConfig
     (sconst (1 / 2)) (mountedSession True) \<noteq> Some y" for y
    using initializeGame_never [of insertionSort codeUnitCompare easy twinCats twoStackConfig
        "sconst (1 / 2)" "mountedSession True" y] srt dr ids ne f two
    by blast
  then have "initializeGame insertionSort codeUnitCompare easy twinCats twoStackConfig
     (sconst (1 / 2)) (mountedSession True) = None"
    by (meson option.exhaust)
  with bounded_exhausted [OF srt dr ids ne f two, of 3 easy "mountedSession True"]
  show ?thesis by simp
qed

subsection \<open>Concrete sessions\<close>

text \<open>The group on top of a stack of two boxes of one cat over a box of another.\<close>

theorem getMatchingTopBoxes_maximal_prefix_witness:
  "getMatchingTopBoxes
     [sampleBox ''1'' ''0'', sampleBox ''1'' ''1'', sampleBox ''0'' ''0'', sampleBox ''1'' ''2''] =
   [sampleBox ''1'' ''0'', sampleBox ''1'' ''1'']"
  using getMatchingTopBoxes_maximal_prefix
    [of "[sampleBox ''1'' ''0'', sampleBox ''1'' ''1'', sampleBox ''0'' ''0'', sampleBox ''1'' ''2'']"]
  by (simp add: kind_def sampleBox_def sampleCat_def)

text \<open>The sorted board is complete; the board one move away from it is not.\<close>

theorem checkCompletion_iff_completeBoard_witness:
  "completeBoard sampleCats sortedBoard \<and> \<not> completeBoard sampleCats nearlySortedBoard"
proof -
  have h1: "\<forall>c \<in> set sampleCats. kindTotal (cat_id c) sortedBoard \<le> MAX_STACK_SIZE"
    by code_simp
  have h2: "\<forall>c \<in> set sampleCats. kindTotal (cat_id c) nearlySortedBoard \<le> MAX_STACK_SIZE"
    by code_simp
  have v1: "fst (checkCompletion sampleCats sortedBoard (mountedSession True))"
    by code_simp
  have v2: "\<not> fst (checkCompletion sampleCats nearlySortedBoard (mountedSession True))"
    by code_simp
  from checkCompletion_iff_completeBoard [OF h1, of "mountedSession True"]
    checkCompletion_iff_completeBoard [OF h2, of "mountedSession True"] v1 v2
  show ?thesis by simp
qed

text \<open>
  On the board \<open>pairedBoard\<close> with stack 0 selected, a click on the empty stack 4 is
  accepted with a group of two, and a click on the full stack 1 is rejected.
\<close>

theorem handleStackClick_accepts_iff_legal_witness:
  "map move_count (moves (step (run (newSession pairedBoard sampleCats True) [Click 0]) (Click 4))) = [2] \<and>
   moves (step (run (newSession pairedBoard sampleCats True) [Click 0]) (Click 1)) = [] \<and>
   selectedStackIndex (step (run (newSession pairedBoard sampleCats True) [Click 0]) (Click 1)) = None"
proof -
  let ?s = "run (newSession pairedBoard sampleCats True) [Click 0]"
  have flags: "\<not> isComplete ?s" "\<not> isLost ?s" "\<not> isAnimating ?s"
    and sel: "selectedStackIndex ?s = Some 0"
    and rng: "0 < length (stacks ?s)" "4 < length (stacks ?s)" "1 < length (stacks ?s)"
    and ne: "stacks ?s ! 0 \<noteq> []"
    by code_simp+
  have yes: "legalMove (getMatchingTopBoxes (stacks ?s ! 0)) (stacks ?s ! 4)"
    and no: "\<not> legalMove (getMatchingTopBoxes (stacks ?s ! 0)) (stacks ?s ! 1)"
    and was: "moves ?s = []" and two: "length (getMatchingTopBoxes (stacks ?s ! 0)) = 2"
    by code_simp+
  have "(0::nat) \<noteq> 4" and "(0::nat) \<noteq> 1" by simp_all
  from handleStackClick_accepts_iff_legal [OF flags sel rng(1,2) \<open>0 \<noteq> 4\<close> ne]
    handleStackClick_accepts_iff_legal [OF flags sel rng(1,3) \<open>0 \<noteq> 1\<close> ne]
    yes no was two
  show ?thesis by auto
qed

text \<open>The accepted move of the pair, after its timer: the pair is stack 4, in order.\<close>

theorem accepted_move_effect_witness:
  "map box_id (stacks (run (newSession pairedBoard sampleCats True)
      [Click 0, Click 4, Timeout]) ! 4) = [''cat-0-0'', ''cat-0-1''] \<and>
   map box_id (stacks (run (newSession pairedBoard sampleCats True)
      [Click 0, Click 4, Timeout]) ! 0) = [''cat-1-0'', ''cat-1-1'']"
proof -
  define s where "s = run (newSession pairedBoard sampleCats True) [Click 0]"
  have flags: "\<not> isComplete s" "\<not> isLost s" "\<not> isAnimating s" "timers s = []"
    and sel: "selectedStackIndex s = Some 0"
    and rng: "0 < length (stacks s)" "4 < length (stacks s)"
    and ne: "stacks s ! 0 \<noteq> []"
    unfolding s_def by code_simp+
  have yes: "legalMove (getMatchingTopBoxes (stacks s ! 0)) (stacks s ! 4)"
    unfolding s_def by code_simp
  have grp: "map box_id (getMatchingTopBoxes (stacks s ! 0)) = [''cat-0-0'', ''cat-0-1'']"
    and dst: "stacks s ! 4 = []"
    and src: "map box_id (drop (length (getMatchingTopBoxes (stacks s ! 0))) (stacks s ! 0)) =
       [''cat-1-0'', ''cat-1-1'']"
    unfolding s_def by code_simp+
  have "(0::nat) \<noteq> 4" by simp
  have r: "run (newSession pairedBoard sampleCats True) [Click 0, Click 4, Timeout] =
      run s [Click 4, Timeout]" by (simp add: s_def)
  from accepted_move_effect [OF flags sel rng \<open>0 \<noteq> 4\<close> ne yes]
  have "stacks (run s [Click 4, Timeout]) ! 0 =
          drop (length (getMatchingTopBoxes (stacks s ! 0))) (stacks s ! 0)"
    and "stacks (run s [Click 4, Timeout]) ! 4 = getMatchingTopBoxes (stacks s ! 0) @ stacks s ! 4"
    unfolding Let_def by blast+
  with grp dst src show ?thesis unfolding r by simp
qed

text \<open>A board without an empty stack that has a move: the top box of stack 0 fits on stack 1.\<close>

theorem checkForValidMoves_iff_witness:
  "\<exists>fromIdx < length crowdedBoard. \<exists>toIdx < length crowdedBoard.
      fromIdx \<noteq> toIdx \<and> crowdedBoard ! fromIdx \<noteq> [] \<and>
      legalMove (getMatchingTopBoxes (crowdedBoard ! fromIdx)) (crowdedBoard ! toIdx)"
proof -
  have v: "checkForValidMoves crowdedBoard" by code_simp
  have e: "\<not> (\<exists>stack \<in> set crowdedBoard. stack = [])" by code_simp
  from checkForValidMoves_iff [of crowdedBoard] v e show ?thesis by simp
qed

text \<open>One move and its undo: the counter goes to one and back to zero.\<close>

theorem moveCount_is_history_length_witness:
  "moveCount (run (newSession mixedBoard sampleCats True) [Click 0, Click 4, Timeout]) = 1 \<and>
   moveCount (run (newSession mixedBoard sampleCats True) [Click 0, Click 4, Timeout, Undo]) = 0"
proof -
  let ?s = "run (newSession mixedBoard sampleCats True) [Click 0, Click 4, Timeout]"
  have h: "moves ?s \<noteq> [] \<and> \<not> isComplete ?s \<and> \<not> isAnimating ?s" by code_simp
  have l: "length (moves ?s) = 1" by code_simp
  have r: "run (newSession mixedBoard sampleCats True) [Click 0, Click 4, Timeout, Undo] =
      step ?s Undo" by simp
  from moveCount_is_history_length
    [of mixedBoard sampleCats True "[Click 0, Click 4, Timeout]"] h l
  show ?thesis unfolding r by (simp add: Let_def)
qed

text \<open>The move that sorts the board calls \<open>onComplete\<close> once.\<close>

theorem onComplete_once_per_session_completion_witness:
  "onCompleteCalls (run (newSession nearlySortedBoard sampleCats True)
      [Click 4, Click 0, Timeout]) = 1"
proof -
  let ?s = "run (newSession nearlySortedBoard sampleCats True) [Click 4, Click 0]"
  have a: "onCompleteCalls ?s = 0 \<and> hasOnComplete ?s \<and> \<not> isComplete ?s" by code_simp
  have b: "isComplete (step ?s Timeout)" by code_simp
  have r: "run (newSession nearlySortedBoard sampleCats True) [Click 4, Click 0, Timeout] =
      step ?s Timeout" by simp
  from onComplete_once_per_session_completion
    [of nearlySortedBoard sampleCats True "[Click 4, Click 0]" Timeout] a b
  show ?thesis unfolding r by (simp add: Let_def)
qed

text \<open>
  Claim C9, as stated, at a concrete input. The first evaluation of the sorted board
  sets \<open>isComplete\<close> and calls \<open>onComplete\<close>; a second evaluation of the same board
  in the resulting, already complete, session returns true and calls it again.
\<close>

theorem checkCompletion_fires_again:
  "isComplete (snd (checkCompletion sampleCats sortedBoard (newSession sortedBoard sampleCats True))) \<and>
   onCompleteCalls (snd (checkCompletion sampleCats sortedBoard
       (newSession sortedBoard sampleCats True))) = 1 \<and>
   fst (checkCompletion sampleCats sortedBoard
       (snd (checkCompletion sampleCats sortedBoard (newSession sortedBoard sampleCats True)))) \<and>
   onCompleteCalls (snd (checkCompletion sampleCats sortedBoard
       (snd (checkCompletion sampleCats sortedBoard (newSession sortedBoard sampleCats True))))) = 2"
  by code_simp

text \<open>
  Claim C1 at a concrete input. On \<open>mixedBoard\<close> the box \<open>cat-0-0\<close> is moved from
  stack 0 to the empty stack 4. Then the box \<open>cat-0-1\<close> is moved from stack 1 onto
  it, a legal move of one box. Undoing that move does not give back the board before it:
  the timer of the undo moves the whole matching group of stack 4, both boxes, to stack
  1, although the record of the move counts one box.
\<close>

theorem undo_run_not_restored:
  "map (map box_id) (stacks (run (newSession mixedBoard sampleCats True)
      [Click 0, Click 4, Timeout])) =
     [[''cat-1-0'', ''cat-2-0'', ''cat-3-0''],
      [''cat-0-1'', ''cat-1-1'', ''cat-2-1'', ''cat-3-1''],
      [''cat-0-2'', ''cat-1-2'', ''cat-2-2'', ''cat-3-2''],
      [''cat-0-3'', ''cat-1-3'', ''cat-2-3'', ''cat-3-3''], [''cat-0-0''], []] \<and>
   map (map box_id) (stacks (run (newSession mixedBoard sampleCats True)
      [Click 0, Click 4, Timeout, Click 1, Click 4, Timeout, Undo, Timeout])) =
     [[''cat-1-0'', ''cat-2-0'', ''cat-3-0''],
      [''cat-0-1'', ''cat-0-0'', ''cat-1-1'', ''cat-2-1'', ''cat-3-1''],
      [''cat-0-2'', ''cat-1-2'', ''cat-2-2'', ''cat-3-2''],
      [''cat-0-3'', ''cat-1-3'', ''cat-2-3'', ''cat-3-3''], [], []]"
  by code_simp

text \<open>
  Claim C2 at a concrete input. On \<open>twistedBoard\<close> one box goes from stack 1 to the
  empty stack 4, then one box from stack 0 onto the three boxes of its cat on stack 1.
  Every stack holds at most four boxes then. The undo of the second move takes all four
  boxes of stack 1 to stack 0, which holds seven boxes afterwards.
\<close>

theorem undo_run_grows_stack:
  "map length (stacks (run (newSession twistedBoard sampleCats True)
      [Click 1, Click 4, Timeout, Click 0, Click 1, Timeout])) = [3, 4, 4, 4, 1, 0] \<and>
   map length (stacks (run (newSession twistedBoard sampleCats True)
      [Click 1, Click 4, Timeout, Click 0, Click 1, Timeout, Undo, Timeout])) = [7, 0, 4, 4, 1, 0]"
  by code_simp

end
